theory Spec2Isabelle
  imports Main "HOL-Library.Multiset" "HOL-Library.Char_ord" "HOL-Library.List_Lexorder"
begin

section \<open>External merge sort of text lines (filesort.go)\<close>

text \<open>
  Go strings are byte sequences compared bytewise; they are modelled as \<open>string\<close>
  (a list of 8-bit characters) under the lexicographic order of \<open>List_Lexorder\<close> over
  the byte order of \<open>Char_ord\<close>. Go's \<open>int\<close> is modelled as \<open>int\<close>: every
  integer of the program is a length or a limit compared with a length, and none
  is ever near the 64-bit boundary.
\<close>

subsection \<open>Errors and byte streams\<close>

text \<open>
  The values of Go's \<open>error\<close> that the program can see. \<open>EOF\<close> is \<open>io.EOF\<close>;
  a \<open>nil\<close> error is \<open>None\<close> of type \<open>error option\<close>.
\<close>

datatype error = EOF | ErrRead | ErrWrite | ErrOpen | ErrCreate | ErrRename

text \<open>
  An \<open>io.Reader\<close> wrapped in a \<open>bufio.Reader\<close>: the bytes it will still deliver,
  and how the stream ends after them: \<open>EOF\<close>, or a read error.
\<close>

datatype reader = Reader (pending: string) (ending: error)

abbreviation NL :: char where
  "NL \<equiv> CHR 0x0A"

text \<open>
  The scan of \<open>bufio.Reader.ReadString('\n')\<close>: the bytes up to and including the
  first newline and the bytes after it, or \<open>None\<close> when there is no newline.
\<close>

fun read_until :: "string \<Rightarrow> (string \<times> string) option" where
  "read_until [] = None"
| "read_until (c # cs) =
     (if c = NL then Some ([c], cs)
      else (case read_until cs of None \<Rightarrow> None | Some (l, rest) \<Rightarrow> Some (c # l, rest)))"

text \<open>
  \<open>ReadString\<close> returns the line with its delimiter and no error, or, when the
  stream ends before a delimiter, the bytes read so far with the error that ended
  the stream (\<open>io.EOF\<close> at a normal end).
\<close>

definition ReadString :: "reader \<Rightarrow> string \<times> error option \<times> reader" where
  "ReadString rd =
     (case read_until (pending rd) of
        Some (l, rest) \<Rightarrow> (l, None, Reader rest (ending rd))
      | None \<Rightarrow> (pending rd, Some (ending rd), Reader [] (ending rd)))"

subsection \<open>Reading a batch of lines\<close>

text \<open>
  The loop of \<open>readLines\<close>, with the loop variables \<open>lines\<close> and \<open>err\<close> as arguments.
\<close>

function readLines_loop ::
  "reader \<Rightarrow> int \<Rightarrow> string list \<Rightarrow> error option \<Rightarrow> string list \<times> error option \<times> reader" where
  "readLines_loop rd limit lines err =
     (if int (length lines) < limit \<and> err = None then
        (case ReadString rd of
           (line, None, rd') \<Rightarrow> readLines_loop rd' limit (lines @ [line]) None
         | (line, Some e, rd') \<Rightarrow>
             if e \<noteq> EOF then (lines, Some e, rd')
             else if length line = 0 then (lines, Some e, rd')
             else readLines_loop rd' limit
                    (lines @ [if last line \<noteq> NL then line @ [NL] else line]) (Some e))
      else (lines, err, rd))"
  by pat_completeness auto
termination
  by (relation "measure (\<lambda>(rd, limit, lines, err). nat (limit - int (length lines)))") auto

definition readLines :: "reader \<Rightarrow> int \<Rightarrow> string list \<times> error option \<times> reader" where
  "readLines rd limit = readLines_loop rd limit [] None"

subsection \<open>The filesystem and its failures\<close>

text \<open>
  The state of the environment. \<open>files\<close> maps the name of each existing file to the
  stream that reading it from the start delivers (its bytes and how the read ends);
  \<open>counter\<close> drives the names \<open>ioutil.TempFile\<close> hands out; \<open>faults\<close> is the
  schedule of environment failures: each call that creates a temporary file, writes,
  flushes or renames takes the next entry, and \<open>True\<close> makes the call fail; an empty
  schedule means no failure. \<open>os.Open\<close> fails on a missing file, and a read error
  is the \<open>ending\<close> of the stream read. \<open>os.Remove\<close> removes an existing file and fails
  (which the program only logs) on a missing one.

  Three fields observe the run without influencing it: \<open>open_now\<close> counts the input
  files currently open in \<open>mergeSimpleFiles\<close>, \<open>open_max\<close> is its high-water mark,
  \<open>merge_sizes\<close> lists the number of names each call of \<open>mergeSimpleFiles\<close> received.
  Messages on the standard error stream are not modelled.
\<close>

record world =
  files :: "string \<rightharpoonup> reader"
  counter :: nat
  faults :: "bool list"
  open_now :: nat
  open_max :: nat
  merge_sizes :: "nat list"

definition fault :: "world \<Rightarrow> bool \<times> world" where
  "fault w = (case faults w of [] \<Rightarrow> (False, w) | b # bs \<Rightarrow> (b, w\<lparr>faults := bs\<rparr>))"

function digits :: "nat \<Rightarrow> string" where
  "digits n = (if n < 10 then [char_of (48 + n)] else digits (n div 10) @ [char_of (48 + n mod 10)])"
  by pat_completeness auto
termination
  by (relation "measure id") auto

definition tmpname :: "string \<Rightarrow> nat \<Rightarrow> string" where
  "tmpname prefix k = ''/tmp/'' @ prefix @ digits k"

text \<open>
  \<open>ioutil.TempFile("", prefix)\<close> creates a new, empty file under a name that no file
  has. The library draws random suffixes and retries on a collision; the model
  takes the suffix from \<open>counter\<close> and reports a collision as the failure the
  library reports when its retries are used up.
\<close>

definition TempFile :: "string \<Rightarrow> world \<Rightarrow> string \<times> error option \<times> world" where
  "TempFile prefix w =
     (case fault w of
        (True, w1) \<Rightarrow> ([], Some ErrCreate, w1)
      | (False, w1) \<Rightarrow>
          (let name = tmpname prefix (counter w1);
               w2 = w1\<lparr>counter := Suc (counter w1)\<rparr>
           in if files w2 name \<noteq> None then ([], Some ErrCreate, w2)
              else (name, None, w2\<lparr>files := (files w2)(name \<mapsto> Reader [] EOF)\<rparr>)))"

text \<open>
  A \<open>bufio.Writer\<close> is the bytes it has accepted; \<open>Flush\<close> makes them the content of
  the file. What a failed write leaves in the file is not modelled: the program
  never reads a file whose writing failed.
\<close>

type_synonym writer = string

definition WriteString :: "writer \<Rightarrow> string \<Rightarrow> world \<Rightarrow> error option \<times> writer \<times> world" where
  "WriteString out s w =
     (case fault w of
        (True, w1) \<Rightarrow> (Some ErrWrite, out, w1)
      | (False, w1) \<Rightarrow> (None, out @ s, w1))"

definition Flush :: "writer \<Rightarrow> string \<Rightarrow> world \<Rightarrow> error option \<times> world" where
  "Flush out name w =
     (case fault w of
        (True, w1) \<Rightarrow> (Some ErrWrite, w1)
      | (False, w1) \<Rightarrow> (None, w1\<lparr>files := (files w1)(name \<mapsto> Reader out EOF)\<rparr>))"

definition deleteFile :: "string \<Rightarrow> world \<Rightarrow> world" where
  "deleteFile filename w = w\<lparr>files := (files w)(filename := None)\<rparr>"

fun deleteFiles :: "string list \<Rightarrow> world \<Rightarrow> world" where
  "deleteFiles [] w = w"
| "deleteFiles (filename # filenames) w = deleteFiles filenames (deleteFile filename w)"

definition os_Open :: "string \<Rightarrow> world \<Rightarrow> (error + reader) \<times> world" where
  "os_Open name w =
     (case files w name of
        None \<Rightarrow> (Inl ErrOpen, w)
      | Some rd \<Rightarrow> (Inr rd, w\<lparr>open_now := Suc (open_now w),
                                open_max := max (open_max w) (Suc (open_now w))\<rparr>))"

definition os_Close :: "nat \<Rightarrow> world \<Rightarrow> world" where
  "os_Close k w = w\<lparr>open_now := open_now w - k\<rparr>"

definition os_Rename :: "string \<Rightarrow> string \<Rightarrow> world \<Rightarrow> error option \<times> world" where
  "os_Rename old new w =
     (case files w old of
        None \<Rightarrow> (Some ErrRename, w)
      | Some f \<Rightarrow>
          (case fault w of
             (True, w1) \<Rightarrow> (Some ErrRename, w1)
           | (False, w1) \<Rightarrow> (None, w1\<lparr>files := ((files w1)(old := None))(new \<mapsto> f)\<rparr>)))"

subsection \<open>Splitting the input into sorted chunks\<close>

text \<open>The \<open>for\<close> loop of \<open>writeChunk\<close>: stop at the first write that fails.\<close>

fun writeChunk_loop :: "string list \<Rightarrow> writer \<Rightarrow> world \<Rightarrow> error option \<times> writer \<times> world" where
  "writeChunk_loop [] buf w = (None, buf, w)"
| "writeChunk_loop (line # lines) buf w =
     (case WriteString buf line w of
        (Some e, buf', w') \<Rightarrow> (Some e, buf', w')
      | (None, buf', w') \<Rightarrow> writeChunk_loop lines buf' w')"

definition writeChunk :: "string list \<Rightarrow> world \<Rightarrow> string \<times> error option \<times> world" where
  "writeChunk lines w =
     (case TempFile ''filesort_chunk_'' w of
        (name, Some e, w1) \<Rightarrow> ([], Some e, w1)
      | (name, None, w1) \<Rightarrow>
          (case writeChunk_loop lines [] w1 of
             (Some e, buf, w2) \<Rightarrow> (name, Some e, w2)
           | (None, buf, w2) \<Rightarrow> (case Flush buf name w2 of (err, w3) \<Rightarrow> (name, err, w3))))"

text \<open>
  Facts about \<open>readLines\<close> and \<open>writeChunk\<close> that the loop of \<open>split\<close> needs to
  terminate: a batch never gives bytes back, a non-empty batch consumes some, and
  a chunk written without error has a non-empty name.
\<close>

lemma read_until_length:
  "read_until s = Some (l, rest) \<Longrightarrow> length s = length l + length rest \<and> l \<noteq> []"
  by (induction s arbitrary: l) (auto split: if_splits option.splits)

lemma ReadString_pending:
  "ReadString rd = (line, err, rd') \<Longrightarrow> length (pending rd') \<le> length (pending rd)"
  by (auto simp: ReadString_def split: option.splits dest: read_until_length)

lemma ReadString_consumes:
  "ReadString rd = (line, err, rd') \<Longrightarrow> line \<noteq> [] \<Longrightarrow> length (pending rd') < length (pending rd)"
  by (auto simp: ReadString_def split: option.splits dest: read_until_length)

lemma ReadString_nil_line:
  "ReadString rd = (line, None, rd') \<Longrightarrow> line \<noteq> []"
  by (auto simp: ReadString_def split: option.splits dest: read_until_length)

declare readLines_loop.simps [simp del]

lemma readLines_loop_stop:
  "\<not> (int (length lines) < limit \<and> err = None) \<Longrightarrow>
     readLines_loop rd limit lines err = (lines, err, rd)"
  by (subst readLines_loop.simps) auto

lemma readLines_loop_step:
  "int (length lines) < limit \<Longrightarrow>
     readLines_loop rd limit lines None =
       (case ReadString rd of
           (line, None, rd') \<Rightarrow> readLines_loop rd' limit (lines @ [line]) None
         | (line, Some e, rd') \<Rightarrow>
             if e \<noteq> EOF \<or> line = [] then (lines, Some e, rd')
             else (lines @ [if last line \<noteq> NL then line @ [NL] else line], Some e, rd'))"
  by (subst readLines_loop.simps) (auto split: prod.splits option.splits simp: readLines_loop_stop)

lemma readLines_loop_pending:
  "readLines_loop rd limit lines err = (lines', err', rd') \<Longrightarrow>
     length (pending rd') \<le> length (pending rd) \<and>
     (length lines < length lines' \<longrightarrow> length (pending rd') < length (pending rd))"
proof (induction rd limit lines err rule: readLines_loop.induct)
  case (1 rd limit lines err)
  show ?case
  proof (cases "int (length lines) < limit \<and> err = None")
    case False
    with "1.prems" show ?thesis by (simp add: readLines_loop_stop)
  next
    case True
    obtain line e rd1 where rs: "ReadString rd = (line, e, rd1)"
      by (cases "ReadString rd") auto
    show ?thesis
    proof (cases e)
      case None
      with "1.prems" True rs
      have rec: "readLines_loop rd1 limit (lines @ [line]) None = (lines', err', rd')"
        by (simp add: readLines_loop_step)
      from None rs have "line \<noteq> []" by (simp add: ReadString_nil_line)
      with rs have "length (pending rd1) < length (pending rd)"
        by (auto dest: ReadString_consumes)
      with "1.IH"(1)[OF True rs[symmetric] refl _ rec] None show ?thesis
        by auto
    next
      case (Some x)
      with "1.prems" True rs show ?thesis
        by (auto simp: readLines_loop_step split: if_splits
                 dest: ReadString_pending ReadString_consumes)
    qed
  qed
qed

lemma readLines_pending:
  "readLines rd limit = (lines, err, rd') \<Longrightarrow>
     length (pending rd') \<le> length (pending rd) \<and>
     (lines \<noteq> [] \<longrightarrow> length (pending rd') < length (pending rd))"
  using readLines_loop_pending[of rd limit "[]" None lines err rd']
  by (auto simp: readLines_def)

lemma digits_not_Nil: "digits n \<noteq> []"
  by (subst digits.simps) simp

lemma tmpname_not_Nil: "tmpname prefix k \<noteq> []"
  by (simp add: tmpname_def)

lemma TempFile_name:
  "TempFile prefix w = (name, None, w') \<Longrightarrow> name \<noteq> []"
  by (auto simp: TempFile_def Let_def tmpname_not_Nil split: prod.splits bool.splits if_splits)

lemma writeChunk_name:
  "writeChunk lines w = (name, None, w') \<Longrightarrow> name \<noteq> []"
  by (auto simp: writeChunk_def split: prod.splits option.splits dest: TempFile_name)

text \<open>
  The loop of \<open>split\<close>, with \<open>chunk_names\<close> and \<open>err\<close> as arguments. As in the source,
  the \<open>err\<close> that the loop tests is the one \<open>writeChunk\<close> returned, so after a
  last batch that ended with \<open>io.EOF\<close> the loop reads once more.
\<close>

function split_loop ::
  "reader \<Rightarrow> int \<Rightarrow> string list \<Rightarrow> error option \<Rightarrow> world
     \<Rightarrow> string list \<times> error option \<times> world" where
  "split_loop rd limit chunk_names err w =
     (if err = None then
        (case readLines rd limit of
           (lines, err1, rd1) \<Rightarrow>
             if err1 \<noteq> None \<and> err1 \<noteq> Some EOF then (chunk_names, err1, w)
             else if length lines = 0 \<and> length chunk_names > 0 then (chunk_names, err1, w)
             else (case writeChunk (sort lines) w of
                     (name, err2, w2) \<Rightarrow>
                       split_loop rd1 limit
                         (if name \<noteq> [] then chunk_names @ [name] else chunk_names) err2 w2))
      else (chunk_names, err, w))"
  by pat_completeness auto
termination
  apply (relation "measure (\<lambda>(rd, limit, chunk_names, err, w).
          if err = None then 1 + 2 * length (pending rd) + (if chunk_names = [] then 1 else 0)
          else 0)")
   apply simp
  apply (auto dest!: readLines_pending[OF sym] writeChunk_name[OF sym] split: if_splits)
  done

declare split_loop.simps [simp del]

definition split :: "reader \<Rightarrow> int \<Rightarrow> world \<Rightarrow> string list \<times> error option \<times> world" where
  "split rd limit w =
     (case split_loop rd limit [] None w of
        (chunk_names, err, w') \<Rightarrow> (chunk_names, if err = Some EOF then None else err, w'))"

subsection \<open>Sorted sources and the k-way merge\<close>

text \<open>
  A \<open>source\<close> is its current top line and the reader behind it. \<open>pop\<close> overwrites
  the top line with whatever \<open>ReadString\<close> returned, also when it returned an error.
\<close>

datatype source = Source (top_line: string) (src_r: reader)

definition pop :: "source \<Rightarrow> error option \<times> source" where
  "pop s = (case ReadString (src_r s) of (line, err, rd) \<Rightarrow> (err, Source line rd))"

text \<open>
  A \<open>sourceSet\<close> is a Go map keyed by pointers to sources: a collection of distinct
  objects that may have equal contents. It is a list here, a position standing for
  a pointer.
\<close>

type_synonym sourceSet = "source list"

fun newSourceSet_loop :: "reader list \<Rightarrow> sourceSet \<Rightarrow> error option \<times> sourceSet" where
  "newSourceSet_loop [] ss = (None, ss)"
| "newSourceSet_loop (rd # rs) ss =
     (case pop (Source [] rd) of
        (Some e, s) \<Rightarrow> if e = EOF then newSourceSet_loop rs ss else (Some e, [])
      | (None, s) \<Rightarrow> newSourceSet_loop rs (ss @ [s]))"

definition newSourceSet :: "reader list \<Rightarrow> error option \<times> sourceSet" where
  "newSourceSet rs = newSourceSet_loop rs []"

text \<open>
  Go leaves the order in which \<open>range\<close> visits a map unspecified, and it differs
  from one loop to the next. The order is a parameter: \<open>sched\<close> proposes, for the
  set as it stands, the sequence in which \<open>range\<close> visits it, and \<open>range_order\<close>
  accepts any proposal that is a rearrangement of the set.
\<close>

type_synonym schedule = "sourceSet \<Rightarrow> source list"

definition range_order :: "schedule \<Rightarrow> sourceSet \<Rightarrow> source list" where
  "range_order sched ss = (if mset (sched ss) = mset ss then sched ss else ss)"

text \<open>
  The scan of \<open>popMin\<close> after its first iteration: \<open>m\<close> is the position of \<open>min\<close>
  and \<open>t\<close> its top line; a later source replaces it only when strictly smaller.
\<close>

fun popMin_scan :: "source list \<Rightarrow> nat \<Rightarrow> nat \<Rightarrow> string \<Rightarrow> nat" where
  "popMin_scan [] i m t = m"
| "popMin_scan (s # ss) i m t =
     (if top_line s < t then popMin_scan ss (Suc i) i (top_line s)
      else popMin_scan ss (Suc i) m t)"

text \<open>
  \<open>popMin\<close> on a set that \<open>range\<close> visits as \<open>s0\<close>, then \<open>rest\<close>. The source is only
  called on a non-empty set (the guard of the loop in \<open>mergeSimple\<close>), so the
  visit has a first element.
\<close>

definition popMin :: "source \<Rightarrow> source list \<Rightarrow> string \<times> error option \<times> sourceSet" where
  "popMin s0 rest =
     (let ss = s0 # rest;
          m = popMin_scan rest 1 0 (top_line s0);
          result = top_line (ss ! m)
      in case pop (ss ! m) of
           (Some e, s') \<Rightarrow>
             if e = EOF then (result, None, take m ss @ drop (Suc m) ss)
             else (result, Some e, ss[m := s'])
         | (None, s') \<Rightarrow> (result, None, ss[m := s']))"

lemma popMin_scan_bound:
  "m < i \<Longrightarrow> popMin_scan ss i m t < i + length ss"
proof (induction ss arbitrary: i m t)
  case Nil
  then show ?case by simp
next
  case (Cons s ss)
  have "popMin_scan ss (Suc i) i (top_line s) < Suc i + length ss"
    by (rule Cons.IH) simp
  moreover have "popMin_scan ss (Suc i) m t < Suc i + length ss"
    using Cons.prems by (intro Cons.IH) simp
  ultimately show ?case by simp
qed

definition weight :: "sourceSet \<Rightarrow> nat" where
  "weight ss = (\<Sum>s\<leftarrow>ss. Suc (length (pending (src_r s))))"

lemma weight_mset: "mset ss = mset ss' \<Longrightarrow> weight ss = weight ss'"
  unfolding weight_def by (metis mset_map sum_mset_sum_list)

lemma weight_range_order: "weight (range_order sched ss) = weight ss"
  by (auto simp: range_order_def intro: weight_mset)

lemma weight_append: "weight (xs @ ys) = weight xs + weight ys"
  by (simp add: weight_def)

lemma weight_Cons: "weight (s # ss) = Suc (length (pending (src_r s))) + weight ss"
  by (simp add: weight_def)

lemma weight_split:
  assumes "m < length ss"
  shows "weight ss = weight (take m ss) + Suc (length (pending (src_r (ss ! m)))) + weight (drop (Suc m) ss)"
proof -
  have "weight ss = weight (take m ss @ ss ! m # drop (Suc m) ss)"
    using assms by (simp only: id_take_nth_drop[symmetric])
  then show ?thesis by (simp only: weight_append weight_Cons)
qed

lemma weight_update:
  assumes "m < length ss"
  shows "weight (ss[m := s']) + length (pending (src_r (ss ! m))) = weight ss + length (pending (src_r s'))"
proof -
  have "weight (ss[m := s']) = weight (take m ss) + Suc (length (pending (src_r s'))) + weight (drop (Suc m) ss)"
    using assms by (simp only: upd_conv_take_nth_drop weight_append weight_Cons)
  with weight_split[OF assms] show ?thesis by linarith
qed

lemma weight_remove:
  assumes "m < length ss"
  shows "weight (take m ss @ drop (Suc m) ss) < weight ss"
  using weight_split[OF assms] by (simp only: weight_append)

lemma popMin_cases:
  assumes "ss = s0 # rest" and "m = popMin_scan rest 1 0 (top_line s0)"
    and "ReadString (src_r (ss ! m)) = (l, e, rd)"
  shows "popMin s0 rest =
           (case e of
              None \<Rightarrow> (top_line (ss ! m), None, ss[m := Source l rd])
            | Some x \<Rightarrow> if x = EOF then (top_line (ss ! m), None, take m ss @ drop (Suc m) ss)
                        else (top_line (ss ! m), Some x, ss[m := Source l rd]))"
  using assms(3) unfolding popMin_def pop_def Let_def assms(1,2)[symmetric]
  by (simp split: option.splits)

lemma popMin_weight:
  assumes "popMin s0 rest = (line, None, ss')"
  shows "weight ss' < weight (s0 # rest)"
proof -
  define ss where "ss = s0 # rest"
  define m where "m = popMin_scan rest 1 0 (top_line s0)"
  have m: "m < length ss"
    using popMin_scan_bound[of 0 1 rest "top_line s0"] by (simp add: m_def ss_def)
  obtain l e rd where rs: "ReadString (src_r (ss ! m)) = (l, e, rd)"
    by (cases "ReadString (src_r (ss ! m))") auto
  note pc = popMin_cases[OF ss_def m_def rs]
  have "weight ss' < weight ss"
  proof (cases e)
    case None
    with rs have "l \<noteq> []" by (simp add: ReadString_nil_line)
    with rs have lt: "length (pending rd) < length (pending (src_r (ss ! m)))"
      by (rule ReadString_consumes)
    from assms pc None have eq: "ss' = ss[m := Source l rd]"
      by simp
    have "weight (ss[m := Source l rd]) + length (pending (src_r (ss ! m)))
            = weight ss + length (pending (src_r (Source l rd)))"
      using m by (rule weight_update)
    then have "weight (ss[m := Source l rd]) + length (pending (src_r (ss ! m)))
            = weight ss + length (pending rd)"
      by (simp only: source.sel)
    with lt show ?thesis unfolding eq by linarith
  next
    case (Some x)
    with assms pc have "ss' = take m ss @ drop (Suc m) ss"
      by (auto split: if_splits)
    with weight_remove[OF m] show ?thesis by (simp only:)
  qed
  then show ?thesis unfolding ss_def .
qed

lemma mergeSimple_loop_decreases:
  assumes "range_order sched sources = s0 # rest" and "(x, y) = popMin s0 rest"
    and "(xa, ya) = y" and "xa = None"
  shows "weight ya < weight sources"
proof -
  from assms(2-4) have "popMin s0 rest = (x, None, ya)" by simp
  then have "weight ya < weight (s0 # rest)" by (rule popMin_weight)
  with assms(1) weight_range_order[of sched sources] show ?thesis by simp
qed

text \<open>The loop of \<open>mergeSimple\<close>, with \<open>sources\<close> and \<open>err\<close> as arguments.\<close>


function mergeSimple_loop ::
  "schedule \<Rightarrow> sourceSet \<Rightarrow> error option \<Rightarrow> writer \<Rightarrow> world \<Rightarrow> error option \<times> writer \<times> world" where
  "mergeSimple_loop sched sources err w world =
     (if length sources > 0 \<and> err = None then
        (case range_order sched sources of
           [] \<Rightarrow> (err, w, world)
         | s0 # rest \<Rightarrow>
             (case popMin s0 rest of
                (min_line, Some e, sources') \<Rightarrow> (Some e, w, world)
              | (min_line, None, sources') \<Rightarrow>
                  (case WriteString w min_line world of
                     (err', w', world') \<Rightarrow> mergeSimple_loop sched sources' err' w' world')))
      else (err, w, world))"
  by pat_completeness auto
termination
proof (relation "measure (\<lambda>(sched, sources, err, w, world).
          if err = None then Suc (weight sources) else 0)", goal_cases)
  case 1
  show ?case by simp
next
  case prems: 2
  from mergeSimple_loop_decreases[OF prems(2-5)] prems(1) show ?case by simp
qed

declare mergeSimple_loop.simps [simp del]

definition mergeSimple ::
  "schedule \<Rightarrow> reader list \<Rightarrow> writer \<Rightarrow> world \<Rightarrow> error option \<times> writer \<times> world" where
  "mergeSimple sched rs w world =
     (case newSourceSet rs of
        (Some e, sources) \<Rightarrow> (Some e, w, world)
      | (None, sources) \<Rightarrow> mergeSimple_loop sched sources None w world)"

subsection \<open>Merging files\<close>

text \<open>The loop of \<open>mergeSimpleFiles\<close> that opens the inputs: it stops at the first failure.\<close>

fun open_inputs :: "string list \<Rightarrow> reader list \<Rightarrow> world \<Rightarrow> reader list \<times> error option \<times> world" where
  "open_inputs [] fs w = (fs, None, w)"
| "open_inputs (name # names) fs w =
     (case os_Open name w of
        (Inl e, w') \<Rightarrow> (fs, Some e, w')
      | (Inr f, w') \<Rightarrow> open_inputs names (fs @ [f]) w')"

text \<open>
  \<open>mergeSimpleFiles\<close>. The deferred calls run when the function returns, last
  registered first: the deletion of the output (registered only after a failure),
  the closing of the inputs that were opened, the closing of the output, the
  deletion of all the inputs. The inputs are read as they were when opened.
\<close>

definition mergeSimpleFiles :: "schedule \<Rightarrow> string list \<Rightarrow> world \<Rightarrow> string \<times> error option \<times> world" where
  "mergeSimpleFiles sched names w =
     (case TempFile ''filesort_merge_'' (w\<lparr>merge_sizes := merge_sizes w @ [length names]\<rparr>) of
        (outname, Some e, w1) \<Rightarrow> ([], Some e, deleteFiles names w1)
      | (outname, None, w1) \<Rightarrow>
          (case open_inputs names [] w1 of
             (fs, err1, w2) \<Rightarrow>
               (case (case err1 of None \<Rightarrow> mergeSimple sched fs [] w2
                                 | Some e \<Rightarrow> (Some e, [], w2)) of
                  (err2, out, w3) \<Rightarrow>
                    (case (case err2 of None \<Rightarrow> Flush out outname w3
                                      | Some e \<Rightarrow> (Some e, w3)) of
                       (err3, w4) \<Rightarrow>
                         (outname, err3,
                          deleteFiles names
                            (os_Close (length fs)
                               (if err3 \<noteq> None then deleteFile outname w4 else w4)))))))"

definition go_min :: "int \<Rightarrow> int \<Rightarrow> int" where
  "go_min a b = (if a < b then a else b)"

definition go_max :: "int \<Rightarrow> int \<Rightarrow> int" where
  "go_max a b = (if a > b then a else b)"

text \<open>
  The loop of \<open>strSliceSplit\<close>; \<open>s[i:j]\<close> is \<open>take (j - i) (drop i s)\<close>. The loop
  is entered only with a positive limit (the source panics otherwise), which the
  guard repeats to make the recursion total.
\<close>

function strSliceSplit_loop :: "string list \<Rightarrow> nat \<Rightarrow> nat \<Rightarrow> string list list \<Rightarrow> string list list" where
  "strSliceSplit_loop s limit i result =
     (if 0 < limit \<and> i < length s then
        (let j = min (length s) (i + limit)
         in strSliceSplit_loop s limit (i + limit) (result @ [take (j - i) (drop i s)]))
      else result)"
  by pat_completeness auto
termination
  by (relation "measure (\<lambda>(s, limit, i, result). length s - i)") auto

declare strSliceSplit_loop.simps [simp del]

text \<open>\<open>None\<close> is the panic "Non-positive limit".\<close>

definition strSliceSplit :: "string list \<Rightarrow> int \<Rightarrow> string list list option" where
  "strSliceSplit s limit =
     (if limit < 1 then None else Some (strSliceSplit_loop s (nat limit) 0 []))"

text \<open>
  How a call that may recurse without end, or panic, comes back: \<open>Timeout\<close> when
  the recursion budget is used up, \<open>Panic\<close> with the message, or \<open>Return\<close> with the
  values returned.
\<close>

datatype 'a outcome = Timeout | Panic string | Return 'a

text \<open>
  \<open>merge\<close> and the loop over the groups in it. The first argument after the
  schedule bounds the depth of the recursion: each call of \<open>merge\<close> takes one unit.
  The world is returned also when the budget runs out or the call panics, so that
  what happened until then can be stated.
\<close>

fun merge :: "schedule \<Rightarrow> nat \<Rightarrow> string list \<Rightarrow> int \<Rightarrow> world \<Rightarrow> (string \<times> error option) outcome \<times> world"
and merge_groups :: "schedule \<Rightarrow> nat \<Rightarrow> string list list \<Rightarrow> int \<Rightarrow> string list \<Rightarrow> world
       \<Rightarrow> (string list \<times> error option) outcome \<times> world" where
  "merge sched 0 names limit w = (Timeout, w)"
| "merge sched (Suc fuel) names limit w =
     (case names of
        [] \<Rightarrow> (Panic ''Empty names'', w)
      | [name] \<Rightarrow> (Return (name, None), w)
      | _ \<Rightarrow>
          if int (length names) \<le> limit then
            (case mergeSimpleFiles sched names w of (name, err, w') \<Rightarrow> (Return (name, err), w'))
          else
            (case strSliceSplit names limit of
               None \<Rightarrow> (Panic ''Non-positive limit'', w)
             | Some name_groups \<Rightarrow>
                 (case merge_groups sched fuel name_groups limit [] w of
                    (Return (reduced_names, None), w') \<Rightarrow> merge sched fuel reduced_names limit w'
                  | (Return (reduced_names, Some e), w') \<Rightarrow> (Return ([], Some e), w')
                  | (Panic msg, w') \<Rightarrow> (Panic msg, w')
                  | (Timeout, w') \<Rightarrow> (Timeout, w'))))"
| "merge_groups sched fuel [] limit reduced_names w = (Return (reduced_names, None), w)"
| "merge_groups sched fuel (grp # groups) limit reduced_names w =
     (case merge sched fuel grp limit w of
        (Return (name, err), w') \<Rightarrow>
          (let reduced_names' = (if name \<noteq> [] then reduced_names @ [name] else reduced_names)
           in case err of
                Some e \<Rightarrow> (Return (reduced_names', Some e), w')
              | None \<Rightarrow> merge_groups sched fuel groups limit reduced_names' w')
      | (Panic msg, w') \<Rightarrow> (Panic msg, w')
      | (Timeout, w') \<Rightarrow> (Timeout, w'))"

subsection \<open>The sort\<close>

definition sortLines :: "schedule \<Rightarrow> nat \<Rightarrow> reader \<Rightarrow> int \<Rightarrow> world \<Rightarrow> (string \<times> error option) outcome \<times> world" where
  "sortLines sched fuel rd limit w =
     (case split rd limit w of
        (names, Some e, w1) \<Rightarrow> (Return ([], Some e), deleteFiles names w1)
      | (names, None, w1) \<Rightarrow> merge sched fuel names (go_min 100 (go_max 10 limit)) w1)"

definition sortLinesFile :: "schedule \<Rightarrow> nat \<Rightarrow> reader \<Rightarrow> int \<Rightarrow> string \<Rightarrow> world \<Rightarrow> (error option) outcome \<times> world" where
  "sortLinesFile sched fuel rd limit outfile w =
     (case sortLines sched fuel rd limit w of
        (Return (name, Some e), w1) \<Rightarrow> (Return (Some e), w1)
      | (Return (name, None), w1) \<Rightarrow> (case os_Rename name outfile w1 of (err, w2) \<Rightarrow> (Return err, w2))
      | (Panic msg, w1) \<Rightarrow> (Panic msg, w1)
      | (Timeout, w1) \<Rightarrow> (Timeout, w1))"

text \<open>
  \<open>bufio.Reader.WriteTo\<close>: copy the stream to the writer until it ends; the end of
  the stream is not an error, a read error is.
\<close>

definition WriteTo :: "reader \<Rightarrow> writer \<Rightarrow> world \<Rightarrow> error option \<times> writer \<times> world" where
  "WriteTo f out w =
     (case fault w of
        (True, w1) \<Rightarrow> (Some ErrWrite, out, w1)
      | (False, w1) \<Rightarrow> (if ending f = EOF then None else Some (ending f), out @ pending f, w1))"

definition sortLinesWrite :: "schedule \<Rightarrow> nat \<Rightarrow> reader \<Rightarrow> int \<Rightarrow> writer \<Rightarrow> world
     \<Rightarrow> (error option \<times> writer) outcome \<times> world" where
  "sortLinesWrite sched fuel rd limit out w =
     (case sortLines sched fuel rd limit w of
        (Return (name, Some e), w1) \<Rightarrow> (Return (Some e, out), w1)
      | (Return (name, None), w1) \<Rightarrow>
          (case os_Open name w1 of
             (Inl e, w2) \<Rightarrow> (Return (Some e, out), deleteFile name w2)
           | (Inr f, w2) \<Rightarrow>
               (case WriteTo f out w2 of
                  (err, out', w3) \<Rightarrow> (Return (err, out'), deleteFile name (os_Close 1 w3))))
      | (Panic msg, w1) \<Rightarrow> (Panic msg, w1)
      | (Timeout, w1) \<Rightarrow> (Timeout, w1))"

text \<open>A world with no file, no failure ahead and nothing open.\<close>

definition world0 :: world where
  "world0 = \<lparr>files = Map.empty, counter = 0, faults = [], open_now = 0, open_max = 0, merge_sizes = []\<rparr>"

section \<open>Properties\<close>

subsection \<open>Groups of names\<close>

lemma strSliceSplit_loop_stop:
  "\<not> (0 < limit \<and> i < length s) \<Longrightarrow> strSliceSplit_loop s limit i result = result"
  by (subst strSliceSplit_loop.simps) auto

lemma strSliceSplit_loop_step:
  "0 < limit \<Longrightarrow> i < length s \<Longrightarrow>
     strSliceSplit_loop s limit i result =
       strSliceSplit_loop s limit (i + limit) (result @ [take (min (length s) (i + limit) - i) (drop i s)])"
  by (subst strSliceSplit_loop.simps) (simp add: Let_def)

lemma strSliceSplit_loop_prefix:
  "strSliceSplit_loop s limit i (xs @ result) = xs @ strSliceSplit_loop s limit i result"
proof (induction s limit i result rule: strSliceSplit_loop.induct)
  case (1 s limit i result)
  show ?case
  proof (cases "0 < limit \<and> i < length s")
    case True
    then show ?thesis
      using "1.IH"[OF True refl] by (simp add: strSliceSplit_loop_step)
  next
    case False
    then show ?thesis by (simp add: strSliceSplit_loop_stop)
  qed
qed

lemma strSliceSplit_loop_groups:
  "g \<in> set (strSliceSplit_loop s limit i result) \<Longrightarrow>
     g \<in> set result \<or> (g \<noteq> [] \<and> length g \<le> limit)"
proof (induction s limit i result rule: strSliceSplit_loop.induct)
  case (1 s limit i result)
  show ?case
  proof (cases "0 < limit \<and> i < length s")
    case True
    with "1.prems" have "g \<in> set (strSliceSplit_loop s limit (i + limit)
        (result @ [take (min (length s) (i + limit) - i) (drop i s)]))"
      by (simp add: strSliceSplit_loop_step)
    from "1.IH"[OF True refl this]
    consider "g \<in> set result" | "g = take (min (length s) (i + limit) - i) (drop i s)"
      | "g \<noteq> [] \<and> length g \<le> limit" by auto
    then show ?thesis
    proof cases
      case 2
      with True have "g \<noteq> []" by (simp add: min_def)
      moreover from 2 have "length g \<le> limit" by simp
      ultimately show ?thesis by simp
    qed simp_all
  next
    case False
    with "1.prems" show ?thesis by (simp add: strSliceSplit_loop_stop)
  qed
qed

lemma strSliceSplit_loop_concat:
  "concat (strSliceSplit_loop s limit i result) = concat result @ (if 0 < limit then drop i s else [])"
proof (induction s limit i result rule: strSliceSplit_loop.induct)
  case (1 s limit i result)
  show ?case
  proof (cases "0 < limit \<and> i < length s")
    case True
    have a: "min (length s) (i + limit) - i = min (length (drop i s)) limit"
      by (auto simp: min_def)
    have b: "take (min (length xs) limit) xs = take limit xs" for xs :: "string list"
      by (cases "length xs \<le> limit") (simp_all add: min_def)
    have c: "drop (i + limit) s = drop limit (drop i s)"
      by (simp add: add.commute)
    have d: "take (min (length s) (i + limit) - i) (drop i s) @ drop (i + limit) s = drop i s"
      by (simp only: a b c append_take_drop_id)
    have "concat (strSliceSplit_loop s limit i result) =
          concat (strSliceSplit_loop s limit (i + limit)
             (result @ [take (min (length s) (i + limit) - i) (drop i s)]))"
      using True by (simp only: strSliceSplit_loop_step)
    also have "\<dots> = concat (result @ [take (min (length s) (i + limit) - i) (drop i s)])
                  @ drop (i + limit) s"
      using "1.IH"[OF True refl] True by (simp only: if_True)
    also have "\<dots> = concat result @ drop i s"
      using d by simp
    finally show ?thesis using True by simp
  next
    case False
    then show ?thesis by (auto simp: strSliceSplit_loop_stop)
  qed
qed

lemma strSliceSplit_loop_length:
  "2 \<le> limit \<Longrightarrow>
     2 * length (strSliceSplit_loop s limit i result)
       \<le> 2 * length result + (length s - i) + (if i < length s then 1 else 0)"
proof (induction s limit i result rule: strSliceSplit_loop.induct)
  case (1 s limit i result)
  show ?case
  proof (cases "0 < limit \<and> i < length s")
    case True
    from "1.IH"[OF True refl "1.prems"] True "1.prems" show ?thesis
      by (simp add: strSliceSplit_loop_step split: if_splits)
  next
    case False
    then show ?thesis by (simp add: strSliceSplit_loop_stop)
  qed
qed

lemma strSliceSplit_loop_first:
  assumes "0 < limit" "s \<noteq> []"
  shows "strSliceSplit_loop s limit 0 [] = take limit s # strSliceSplit_loop s limit limit []"
proof -
  have "strSliceSplit_loop s limit 0 [] = strSliceSplit_loop s limit limit ([take (min (length s) limit) s] @ [])"
    using assms by (simp add: strSliceSplit_loop_step)
  also have "\<dots> = [take (min (length s) limit) s] @ strSliceSplit_loop s limit limit []"
    by (rule strSliceSplit_loop_prefix)
  also have "take (min (length s) limit) s = take limit s"
    by (cases "length s \<le> limit") (simp_all add: min_def)
  finally show ?thesis by simp
qed

subsection \<open>The merge tree: panics and termination\<close>

lemma mergeSimpleFiles_name:
  "mergeSimpleFiles sched names w = (name, None, w') \<Longrightarrow> name \<noteq> []"
  unfolding mergeSimpleFiles_def
  by (auto split: prod.splits option.splits dest: TempFile_name)

lemma merge_single [simp]: "merge sched (Suc fuel) [name] limit w = (Return (name, None), w)"
  by simp

lemma merge_direct:
  assumes "2 \<le> length names" "int (length names) \<le> limit"
  shows "merge sched (Suc fuel) names limit w =
           (case mergeSimpleFiles sched names w of (name, err, w') \<Rightarrow> (Return (name, err), w'))"
proof -
  from assms(1) obtain a b rest where "names = a # b # rest"
    by (cases names; cases "tl names") auto
  with assms(2) show ?thesis by simp
qed

lemma merge_recursive:
  assumes "limit < int (length names)" "1 \<le> limit" "2 \<le> length names"
  shows "merge sched (Suc fuel) names limit w =
           (case merge_groups sched fuel (strSliceSplit_loop names (nat limit) 0 []) limit [] w of
              (Return (reduced_names, None), w') \<Rightarrow> merge sched fuel reduced_names limit w'
            | (Return (reduced_names, Some e), w') \<Rightarrow> (Return ([], Some e), w')
            | (Panic msg, w') \<Rightarrow> (Panic msg, w')
            | (Timeout, w') \<Rightarrow> (Timeout, w'))"
proof -
  from assms(3) obtain a b rest where "names = a # b # rest"
    by (cases names; cases "tl names") auto
  with assms(1,2) show ?thesis by (simp add: strSliceSplit_def)
qed

declare merge.simps(2) [simp del]

text \<open>A group within the limit is merged without recursion.\<close>

lemma merge_group:
  assumes "grp \<noteq> []" "int (length grp) \<le> limit"
  shows "\<exists>name err w'. merge sched (Suc fuel) grp limit w = (Return (name, err), w')
            \<and> (err = None \<and> 2 \<le> length grp \<longrightarrow> name \<noteq> [])"
proof (cases "2 \<le> length grp")
  case True
  obtain name err w' where m: "mergeSimpleFiles sched grp w = (name, err, w')"
    by (cases "mergeSimpleFiles sched grp w") auto
  with merge_direct[OF True assms(2), of sched fuel w] mergeSimpleFiles_name[of sched grp w name w']
  show ?thesis by auto
next
  case False
  with assms(1) obtain n where "grp = [n]" by (cases grp; cases "tl grp") auto
  with False show ?thesis by simp
qed

lemma merge_groups_result:
  assumes "\<forall>g\<in>set groups. g \<noteq> [] \<and> int (length g) \<le> limit"
  shows "\<exists>reduced err w'.
           merge_groups sched (Suc fuel) groups limit acc w = (Return (reduced, err), w')
           \<and> length reduced \<le> length acc + length groups
           \<and> ([] \<notin> set acc \<longrightarrow> [] \<notin> set reduced)
           \<and> (err = None \<and> (acc \<noteq> [] \<or> (groups \<noteq> [] \<and> 2 \<le> length (hd groups)))
                \<longrightarrow> reduced \<noteq> [])"
  using assms
proof (induction groups arbitrary: acc w)
  case Nil
  then show ?case by simp
next
  case (Cons g groups)
  from Cons.prems have g: "g \<noteq> []" "int (length g) \<le> limit" by auto
  from merge_group[OF g, of sched fuel w] obtain name err w1
    where m: "merge sched (Suc fuel) g limit w = (Return (name, err), w1)"
      and n: "err = None \<and> 2 \<le> length g \<longrightarrow> name \<noteq> []" by blast
  define acc' where "acc' = (if name \<noteq> [] then acc @ [name] else acc)"
  show ?case
  proof (cases err)
    case (Some e)
    with m show ?thesis by (auto simp: Let_def)
  next
    case None
    from Cons.prems have "\<forall>g\<in>set groups. g \<noteq> [] \<and> int (length g) \<le> limit" by simp
    from Cons.IH[OF this, of acc' w1] obtain reduced err' w'
      where r: "merge_groups sched (Suc fuel) groups limit acc' w1 = (Return (reduced, err'), w')"
        and l: "length reduced \<le> length acc' + length groups"
        and nn: "[] \<notin> set acc' \<longrightarrow> [] \<notin> set reduced"
        and ne: "err' = None \<and> (acc' \<noteq> [] \<or> (groups \<noteq> [] \<and> 2 \<le> length (hd groups)))
                \<longrightarrow> reduced \<noteq> []" by blast
    have eq: "merge_groups sched (Suc fuel) (g # groups) limit acc w = (Return (reduced, err'), w')"
      using m None r by (simp add: Let_def acc'_def)
    have "length acc' \<le> Suc (length acc)" by (simp add: acc'_def)
    with l have l': "length reduced \<le> length acc + length (g # groups)" by simp
    have "acc \<noteq> [] \<or> 2 \<le> length g \<Longrightarrow> acc' \<noteq> []"
      using n None by (auto simp: acc'_def)
    with ne have "err' = None \<and> (acc \<noteq> [] \<or> 2 \<le> length g) \<longrightarrow> reduced \<noteq> []"
      by blast
    moreover have "[] \<notin> set acc \<longrightarrow> [] \<notin> set reduced"
      using nn by (auto simp: acc'_def split: if_splits)
    ultimately show ?thesis using eq l' by simp
  qed
qed

lemma merge_groups_fuel0:
  "groups \<noteq> [] \<Longrightarrow> merge_groups sched 0 groups limit acc w = (Timeout, w)"
  by (cases groups) simp_all


lemma name_groups_facts:
  assumes "2 \<le> limit" "limit < int (length names)"
  defines "groups \<equiv> strSliceSplit_loop names (nat limit) 0 []"
  shows "\<forall>g\<in>set groups. g \<noteq> [] \<and> int (length g) \<le> limit"
    and "groups \<noteq> []" and "2 \<le> length (hd groups)"
    and "2 * length groups \<le> length names + 1"
    and "concat groups = names"
proof -
  from assms(1,2) have pos: "0 < nat limit" and ne: "names \<noteq> []" by auto
  show "\<forall>g\<in>set groups. g \<noteq> [] \<and> int (length g) \<le> limit"
  proof
    fix g assume "g \<in> set groups"
    then have "g \<in> set [] \<or> (g \<noteq> [] \<and> length g \<le> nat limit)"
      unfolding groups_def by (rule strSliceSplit_loop_groups)
    with assms(1) show "g \<noteq> [] \<and> int (length g) \<le> limit" by auto
  qed
  have first: "groups = take (nat limit) names # strSliceSplit_loop names (nat limit) (nat limit) []"
    unfolding groups_def using pos ne by (rule strSliceSplit_loop_first)
  then show "groups \<noteq> []" by simp
  from first assms(1,2) show "2 \<le> length (hd groups)" by simp
  have "2 * length groups \<le> 2 * length ([]::string list list) + (length names - 0)
          + (if 0 < length names then 1 else 0)"
    unfolding groups_def by (rule strSliceSplit_loop_length) (use assms(1) in simp)
  then show "2 * length groups \<le> length names + 1" by (simp split: if_splits)
  show "concat groups = names"
    unfolding groups_def using pos by (simp add: strSliceSplit_loop_concat)
qed


lemma merge_no_panic:
  assumes "2 \<le> limit" "names \<noteq> []"
  shows "fst (merge sched fuel names limit w) \<noteq> Panic msg"
  using assms(2)
proof (induction fuel arbitrary: names w)
  case 0
  then show ?case by simp
next
  case (Suc fuel)
  from Suc.prems(1) have "length names \<noteq> 0" by simp
  then have "length names = 1 \<or> (2 \<le> length names \<and> int (length names) \<le> limit)
      \<or> limit < int (length names)" by linarith
  then consider "length names = 1" | "2 \<le> length names" "int (length names) \<le> limit"
    | "limit < int (length names)" by blast
  then show ?case
  proof cases
    case 1
    then obtain n where "names = [n]" by (cases names) auto
    then show ?thesis by simp
  next
    case 2
    then show ?thesis by (simp add: merge_direct split: prod.splits)
  next
    case 3
    define groups where "groups = strSliceSplit_loop names (nat limit) 0 []"
    note gf = name_groups_facts[OF assms(1) 3, folded groups_def]
    from 3 assms(1) have n3: "3 \<le> length names" by simp
    note rec = merge_recursive[of limit names sched fuel w, folded groups_def]
    show ?thesis
    proof (cases fuel)
      case 0
      with gf(2) have "merge_groups sched fuel groups limit [] w = (Timeout, w)"
        by (simp add: merge_groups_fuel0)
      with rec 3 assms(1) n3 show ?thesis by simp
    next
      case (Suc fuel')
      from merge_groups_result[OF gf(1), of sched fuel' "[]" w] obtain reduced err w1
        where r: "merge_groups sched fuel groups limit [] w = (Return (reduced, err), w1)"
          and ne: "err = None \<longrightarrow> reduced \<noteq> []"
        using gf(2,3) unfolding Suc by auto
      show ?thesis
      proof (cases err)
        case (Some e)
        with rec r 3 assms(1) n3 show ?thesis by simp
      next
        case None
        with rec r 3 assms(1) n3
        have "merge sched (Suc fuel) names limit w = merge sched fuel reduced limit w1" by simp
        with Suc.IH[of reduced w1] ne None show ?thesis by (simp add: \<open>fuel = Suc fuel'\<close>[symmetric])
      qed
    qed
  qed
qed


lemma go_limit_range:
  "10 \<le> go_min 100 (go_max 10 limit) \<and> go_min 100 (go_max 10 limit) \<le> 100"
  by (simp add: go_min_def go_max_def)

subsection \<open>Names of temporary files\<close>

lemma digits_less10: "n < 10 \<Longrightarrow> digits n = [char_of (48 + n)]"
  by (subst digits.simps) simp

lemma digits_ge10: "\<not> n < 10 \<Longrightarrow> digits n = digits (n div 10) @ [char_of (48 + n mod 10)]"
  by (subst digits.simps) simp

lemma digit_char_inj: "a < 10 \<Longrightarrow> b < 10 \<Longrightarrow> char_of (48 + a) = (char_of (48 + b) :: char) \<Longrightarrow> a = (b::nat)"
  by (simp add: char_of_eq_iff take_bit_eq_mod)

lemma digits_inj: "digits m = digits n \<Longrightarrow> m = n"
proof (induction m arbitrary: n rule: less_induct)
  case (less m)
  show ?case
  proof (cases "m < 10")
    case m: True
    show ?thesis
    proof (cases "n < 10")
      case True
      with m less.prems show ?thesis by (auto simp: digits_less10 dest: digit_char_inj)
    next
      case False
      with m less.prems digits_not_Nil[of "n div 10"] show ?thesis
        by (simp add: digits_less10 digits_ge10)
    qed
  next
    case m: False
    show ?thesis
    proof (cases "n < 10")
      case True
      with m less.prems digits_not_Nil[of "m div 10"] show ?thesis
        by (simp add: digits_less10 digits_ge10)
    next
      case False
      with m less.prems have d: "digits (m div 10) = digits (n div 10)"
        and c: "char_of (48 + m mod 10) = (char_of (48 + n mod 10) :: char)"
        by (simp_all add: digits_ge10)
      from m have "m div 10 < m" by simp
      from less.IH[OF this d] have "m div 10 = n div 10" .
      moreover from c have "m mod 10 = n mod 10" by (rule digit_char_inj[rotated 2]) simp_all
      ultimately show ?thesis by (metis div_mult_mod_eq)
    qed
  qed
qed

lemma tmpname_inj: "tmpname p k = tmpname p k' \<Longrightarrow> k = k'"
  by (simp add: tmpname_def digits_inj)

lemma tmpname_prefixes:
  "tmpname ''filesort_chunk_'' k \<noteq> tmpname ''filesort_merge_'' k'"
  by (simp add: tmpname_def)

text \<open>
  A world is \<open>fresh\<close> when no file bears a name that \<open>TempFile\<close> has yet to hand
  out, and \<open>calm\<close> when no failure is scheduled.
\<close>

definition fresh :: "world \<Rightarrow> bool" where
  "fresh w \<longleftrightarrow> (\<forall>k\<ge>counter w. files w (tmpname ''filesort_chunk_'' k) = None
                           \<and> files w (tmpname ''filesort_merge_'' k) = None)"

definition calm :: "world \<Rightarrow> bool" where
  "calm w \<longleftrightarrow> faults w = []"

lemma fault_calm: "calm w \<Longrightarrow> fault w = (False, w)"
  by (simp add: fault_def calm_def)

lemma fresh_world0: "fresh world0" and calm_world0: "calm world0"
  by (simp_all add: fresh_def calm_def world0_def)

subsection \<open>The lines of an input\<close>

text \<open>
  The records of a byte sequence: its lines, each with its newline, the last one
  given a newline when the bytes end without one. \<open>complete_lines\<close> are the lines
  that end with a newline in the bytes themselves.
\<close>

function records :: "string \<Rightarrow> string list" where
  "records s =
     (case read_until s of
        None \<Rightarrow> (if s = [] then [] else [s @ [NL]])
      | Some (l, rest) \<Rightarrow> l # records rest)"
  by pat_completeness auto
termination
  by (relation "measure length") (auto dest!: read_until_length)

function complete_lines :: "string \<Rightarrow> string list" where
  "complete_lines s =
     (case read_until s of
        None \<Rightarrow> []
      | Some (l, rest) \<Rightarrow> l # complete_lines rest)"
  by pat_completeness auto
termination
  by (relation "measure length") (auto dest!: read_until_length)

declare records.simps [simp del] complete_lines.simps [simp del]

text \<open>A line as the program passes it on: some bytes other than newline, then a newline.\<close>

definition terminated :: "string \<Rightarrow> bool" where
  "terminated l \<longleftrightarrow> l \<noteq> [] \<and> last l = NL \<and> NL \<notin> set (butlast l)"

lemma read_until_None: "read_until s = None \<longleftrightarrow> NL \<notin> set s"
  by (induction s) (auto split: option.splits)

lemma read_until_Some:
  "read_until s = Some (l, rest) \<Longrightarrow> s = l @ rest \<and> terminated l"
  by (induction s arbitrary: l) (auto simp: terminated_def split: if_splits option.splits)

lemma read_until_terminated:
  "terminated l \<Longrightarrow> read_until (l @ s) = Some (l, s)"
proof (induction l)
  case Nil
  then show ?case by (simp add: terminated_def)
next
  case (Cons c l)
  show ?case
  proof (cases "l = []")
    case True
    with Cons.prems show ?thesis by (simp add: terminated_def)
  next
    case False
    with Cons.prems have "terminated l" "c \<noteq> NL" by (auto simp: terminated_def)
    with Cons.IH show ?thesis by simp
  qed
qed

lemma records_Nil [simp]: "records [] = []"
  by (subst records.simps) simp

lemma records_terminated: "l \<in> set (records s) \<Longrightarrow> terminated l"
proof (induction s arbitrary: l rule: records.induct)
  case (1 s)
  show ?case
  proof (cases "read_until s")
    case None
    with "1.prems" have "s \<noteq> []" "l = s @ [NL]"
      by (subst (asm) records.simps; simp split: if_splits)+
    with None show ?thesis by (simp add: terminated_def read_until_None)
  next
    case (Some p)
    obtain a rest where p: "p = (a, rest)" by (cases p)
    with Some "1.prems" have "l = a \<or> l \<in> set (records rest)"
      by (subst (asm) records.simps) auto
    with "1.IH"[OF Some p[symmetric]] read_until_Some[of s a rest] Some p show ?thesis by auto
  qed
qed

lemma records_concat: "terminated l \<Longrightarrow> records (l @ s) = l # records s"
  by (subst records.simps) (simp add: read_until_terminated)

lemma records_concat_all: "\<forall>l\<in>set ls. terminated l \<Longrightarrow> records (concat ls) = ls"
  by (induction ls) (simp_all add: records_concat)

lemma complete_lines_Nil [simp]: "complete_lines [] = []"
  by (subst complete_lines.simps) simp

lemma complete_lines_concat: "terminated l \<Longrightarrow> complete_lines (l @ s) = l # complete_lines s"
  by (subst complete_lines.simps) (simp add: read_until_terminated)

lemma complete_lines_concat_all: "\<forall>l\<in>set ls. terminated l \<Longrightarrow> complete_lines (concat ls) = ls"
  by (induction ls) (simp_all add: complete_lines_concat)

text \<open>
  A batch read from a stream that ends normally: the first \<open>limit\<close> records (fewer
  when the stream has fewer), with \<open>io.EOF\<close> or no error, and the stream left at
  the records that follow.
\<close>

lemma readLines_loop_records:
  "\<exists>err rest. readLines_loop (Reader s EOF) limit lines None
       = (lines @ take (nat (limit - int (length lines))) (records s), err, Reader rest EOF)
     \<and> records rest = drop (nat (limit - int (length lines))) (records s)
     \<and> (err = None \<or> err = Some EOF)"
proof (induction "nat (limit - int (length lines))" arbitrary: s lines)
  case 0
  then have "\<not> int (length lines) < limit" by simp
  with 0 show ?case by (simp add: readLines_loop_stop)
next
  case (Suc k)
  then have lt: "int (length lines) < limit" by simp
  show ?case
  proof (cases "read_until s")
    case None
    then have rs: "ReadString (Reader s EOF) = (s, Some EOF, Reader [] EOF)"
      by (simp add: ReadString_def)
    show ?thesis
    proof (cases "s = []")
      case True
      with rs lt show ?thesis by (simp add: readLines_loop_step)
    next
      case False
      with None have "last s \<noteq> NL" by (metis last_in_set read_until_None)
      moreover from None False have "records s = [s @ [NL]]"
        by (subst records.simps) simp
      ultimately show ?thesis using rs lt False Suc(2)[symmetric]
        by (simp add: readLines_loop_step)
    qed
  next
    case (Some p)
    obtain l rest where p: "p = (l, rest)" by (cases p)
    with Some have rs: "ReadString (Reader s EOF) = (l, None, Reader rest EOF)"
      by (simp add: ReadString_def)
    from Some p have rec: "records s = l # records rest"
      by (subst records.simps) simp
    from Suc(2) have k: "k = nat (limit - int (length (lines @ [l])))" by simp
    from Suc(1)[OF k, of rest] obtain err rest'
      where "readLines_loop (Reader rest EOF) limit (lines @ [l]) None
               = ((lines @ [l]) @ take k (records rest), err, Reader rest' EOF)"
        and "records rest' = drop k (records rest)" and "err = None \<or> err = Some EOF"
      unfolding k[symmetric] by blast
    with rs lt rec Suc(2)[symmetric] show ?thesis
      by (simp add: readLines_loop_step)
  qed
qed

lemma readLines_records:
  "\<exists>err rest. readLines (Reader s EOF) limit = (take (nat limit) (records s), err, Reader rest EOF)
     \<and> records rest = drop (nat limit) (records s) \<and> (err = None \<or> err = Some EOF)"
  using readLines_loop_records[of s limit "[]"] by (simp add: readLines_def)

lemma readLines_loop_last_line:
  assumes "\<forall>l\<in>set ls. terminated l" and "tail \<noteq> []" and "NL \<notin> set tail"
    and "int (length lines + length ls) < limit"
  shows "readLines_loop (Reader (concat ls @ tail) EOF) limit lines None
           = (lines @ ls @ [tail @ [NL]], Some EOF, Reader [] EOF)"
  using assms(1,4)
proof (induction ls arbitrary: lines)
  case Nil
  from assms(3) have "ReadString (Reader tail EOF) = (tail, Some EOF, Reader [] EOF)"
    by (simp add: ReadString_def read_until_None[symmetric])
  moreover from assms(2,3) have "last tail \<noteq> NL" by (metis last_in_set)
  ultimately show ?case using Nil assms(2) by (simp add: readLines_loop_step)
next
  case (Cons l ls)
  then have "terminated l" by simp
  then have "ReadString (Reader (l @ concat ls @ tail) EOF) = (l, None, Reader (concat ls @ tail) EOF)"
    by (simp add: ReadString_def read_until_terminated)
  moreover have "readLines_loop (Reader (concat ls @ tail) EOF) limit (lines @ [l]) None
           = ((lines @ [l]) @ ls @ [tail @ [NL]], Some EOF, Reader [] EOF)"
    using Cons.prems by (intro Cons.IH) simp_all
  ultimately show ?case using Cons.prems(2) by (simp add: readLines_loop_step)
qed

lemma records_last_line:
  assumes "\<forall>l\<in>set ls. terminated l" and "tail \<noteq> []" and "NL \<notin> set tail"
  shows "records (concat ls @ tail) = ls @ [tail @ [NL]]"
  using assms(1)
proof (induction ls)
  case Nil
  from assms(2,3) show ?case
    by (subst records.simps) (simp add: read_until_None[symmetric])
next
  case (Cons l ls)
  then show ?case by (simp add: records_concat)
qed

subsection \<open>What \<open>split\<close> writes\<close>

lemma writeChunk_loop_calm:
  "calm w \<Longrightarrow> writeChunk_loop lines buf w = (None, buf @ concat lines, w)"
  by (induction lines arbitrary: buf) (simp_all add: WriteString_def fault_calm)

text \<open>The world after a chunk of the given lines has been written without failure.\<close>

definition put_chunk :: "string list \<Rightarrow> world \<Rightarrow> world" where
  "put_chunk lines w =
     w\<lparr>files := (files w)(tmpname ''filesort_chunk_'' (counter w) \<mapsto> Reader (concat lines) EOF),
       counter := Suc (counter w)\<rparr>"

lemma writeChunk_calm:
  assumes "calm w" "fresh w"
  shows "writeChunk lines w = (tmpname ''filesort_chunk_'' (counter w), None, put_chunk lines w)"
proof -
  from assms(2) have "files w (tmpname ''filesort_chunk_'' (counter w)) = None"
    by (simp add: fresh_def)
  then have "TempFile ''filesort_chunk_'' w =
      (tmpname ''filesort_chunk_'' (counter w), None,
       w\<lparr>counter := Suc (counter w),
         files := (files w)(tmpname ''filesort_chunk_'' (counter w) \<mapsto> Reader [] EOF)\<rparr>)"
    using assms(1) by (simp add: TempFile_def fault_calm Let_def)
  moreover have "calm (w\<lparr>counter := Suc (counter w),
         files := (files w)(tmpname ''filesort_chunk_'' (counter w) \<mapsto> Reader [] EOF)\<rparr>)"
    using assms(1) by (simp add: calm_def)
  ultimately show ?thesis
    by (simp add: writeChunk_def writeChunk_loop_calm Flush_def fault_calm put_chunk_def)
qed

lemma put_chunk_calm: "calm w \<Longrightarrow> calm (put_chunk lines w)"
  by (simp add: calm_def put_chunk_def)

lemma put_chunk_fresh: "fresh w \<Longrightarrow> fresh (put_chunk lines w)"
  unfolding fresh_def put_chunk_def
  by (auto dest: tmpname_inj simp: tmpname_prefixes[symmetric])

lemma put_chunk_counter [simp]: "counter (put_chunk lines w) = Suc (counter w)"
  by (simp add: put_chunk_def)

text \<open>Consecutive batches of at most \<open>k\<close> elements: how \<open>split\<close> cuts the records.\<close>

function batches :: "nat \<Rightarrow> 'a list \<Rightarrow> 'a list list" where
  "batches k xs = (if k = 0 \<or> xs = [] then [] else take k xs # batches k (drop k xs))"
  by pat_completeness auto
termination
  by (relation "measure (\<lambda>(k, xs). length xs)") auto

declare batches.simps [simp del]

lemma batches_Nil [simp]: "batches k [] = []"
  by (subst batches.simps) simp

lemma batches_Cons: "0 < k \<Longrightarrow> xs \<noteq> [] \<Longrightarrow> batches k xs = take k xs # batches k (drop k xs)"
  by (subst batches.simps) simp

definition names_from :: "nat \<Rightarrow> nat \<Rightarrow> string list" where
  "names_from c n = map (tmpname ''filesort_chunk_'') [c ..< c + n]"

lemma names_from_Suc:
  "names_from c (Suc n) = tmpname ''filesort_chunk_'' c # names_from (Suc c) n"
proof -
  have "[c ..< c + Suc n] = c # [Suc c ..< Suc c + n]"
    by (subst upt_rec) simp
  then show ?thesis by (simp only: names_from_def list.map)
qed

definition put_chunks :: "string list list \<Rightarrow> world \<Rightarrow> world" where
  "put_chunks bs w = foldl (\<lambda>w b. put_chunk (sort b) w) w bs"

lemma split_loop_step:
  "split_loop rd limit chunk_names None w =
     (case readLines rd limit of
        (lines, err1, rd1) \<Rightarrow>
          if err1 \<noteq> None \<and> err1 \<noteq> Some EOF then (chunk_names, err1, w)
          else if lines = [] \<and> chunk_names \<noteq> [] then (chunk_names, err1, w)
          else (case writeChunk (sort lines) w of
                  (name, err2, w2) \<Rightarrow>
                    split_loop rd1 limit
                      (if name \<noteq> [] then chunk_names @ [name] else chunk_names) err2 w2))"
  by (subst split_loop.simps) (simp split: prod.splits)


lemma split_loop_records:
  assumes "calm w" "fresh w" "1 \<le> limit" "names \<noteq> [] \<or> records s \<noteq> []"
  shows "\<exists>err. split_loop (Reader s EOF) limit names None w
           = (names @ names_from (counter w) (length (batches (nat limit) (records s))), err,
              put_chunks (batches (nat limit) (records s)) w)
         \<and> (err = None \<or> err = Some EOF)"
  using assms(1,2,4)
proof (induction "length (records s)" arbitrary: s names w rule: less_induct)
  case less
  from readLines_records[of s limit] obtain err1 rest
    where rl: "readLines (Reader s EOF) limit = (take (nat limit) (records s), err1, Reader rest EOF)"
      and rest: "records rest = drop (nat limit) (records s)"
      and err1: "err1 = None \<or> err1 = Some EOF" by blast
  from assms(3) have k: "0 < nat limit" by simp
  show ?case
  proof (cases "records s = []")
    case True
    with less.prems(3) have "names \<noteq> []" by simp
    with rl err1 True show ?thesis
      by (auto simp: split_loop_step names_from_def put_chunks_def)
  next
    case False
    then have ne: "take (nat limit) (records s) \<noteq> []" using k by (cases "records s") auto
    define b where "b = take (nat limit) (records s)"
    define w1 where "w1 = put_chunk (sort b) w"
    define name where "name = tmpname ''filesort_chunk_'' (counter w)"
    have wc: "writeChunk (sort b) w = (name, None, w1)"
      unfolding name_def w1_def using less.prems(1,2) by (rule writeChunk_calm)
    have name: "name \<noteq> []" by (simp add: name_def tmpname_not_Nil)
    have step: "split_loop (Reader s EOF) limit names None w
                  = split_loop (Reader rest EOF) limit (names @ [name]) None w1"
      using rl err1 ne wc name by (auto simp: split_loop_step b_def[symmetric])
    have shorter: "length (records rest) < length (records s)"
      using rest False k by (cases "records s") auto
    have "calm w1" "fresh w1"
      unfolding w1_def using less.prems(1,2) by (simp_all add: put_chunk_calm put_chunk_fresh)
    from less.hyps[OF shorter this, of "names @ [name]"] obtain err
      where rec: "split_loop (Reader rest EOF) limit (names @ [name]) None w1
           = ((names @ [name]) @ names_from (counter w1) (length (batches (nat limit) (records rest))), err,
              put_chunks (batches (nat limit) (records rest)) w1)"
        and err: "err = None \<or> err = Some EOF" by auto
    have bs: "batches (nat limit) (records s) = b # batches (nat limit) (records rest)"
      using k False by (simp add: batches_Cons b_def rest)
    have "names @ names_from (counter w) (length (batches (nat limit) (records s)))
            = (names @ [name]) @ names_from (counter w1) (length (batches (nat limit) (records rest)))"
      by (simp add: bs names_from_Suc name_def w1_def)
    moreover have "put_chunks (batches (nat limit) (records s)) w
            = put_chunks (batches (nat limit) (records rest)) w1"
      by (simp add: bs put_chunks_def w1_def)
    ultimately show ?thesis using step rec err by simp
  qed
qed

lemma split_empty:
  assumes "calm w" "fresh w"
  shows "split (Reader [] EOF) limit w
           = ([tmpname ''filesort_chunk_'' (counter w)], None, put_chunk [] w)"
proof -
  from readLines_records[of "[]" limit] obtain err1 rest
    where rl: "readLines (Reader [] EOF) limit = ([], err1, Reader rest EOF)"
      and rest: "records rest = []" and err1: "err1 = None \<or> err1 = Some EOF" by auto
  from readLines_records[of rest limit] rest obtain err2 rest2
    where rl2: "readLines (Reader rest EOF) limit = ([], err2, Reader rest2 EOF)"
      and err2: "err2 = None \<or> err2 = Some EOF" by auto
  define name where "name = tmpname ''filesort_chunk_'' (counter w)"
  have wc: "writeChunk (sort []) w = (name, None, put_chunk [] w)"
    unfolding name_def using writeChunk_calm[OF assms, of "[]"] by simp
  have name: "name \<noteq> []" by (simp add: name_def tmpname_not_Nil)
  have "split_loop (Reader [] EOF) limit [] None w
          = split_loop (Reader rest EOF) limit [name] None (put_chunk [] w)"
    using rl err1 wc name by (auto simp: split_loop_step)
  also have "\<dots> = ([name], err2, put_chunk [] w)"
    using rl2 err2 by (auto simp: split_loop_step)
  finally show ?thesis using err2 by (auto simp: split_def name_def)
qed

lemma split_records:
  assumes "calm w" "fresh w" "1 \<le> limit" "records s \<noteq> []"
  shows "split (Reader s EOF) limit w
           = (names_from (counter w) (length (batches (nat limit) (records s))), None,
              put_chunks (batches (nat limit) (records s)) w)"
  using split_loop_records[OF assms(1-3), of "[]" s] assms(4)
  by (auto simp: split_def)




lemma put_chunks_Nil [simp]: "put_chunks [] w = w"
  by (simp add: put_chunks_def)

lemma put_chunks_Cons [simp]: "put_chunks (b # bs) w = put_chunks bs (put_chunk (sort b) w)"
  by (simp add: put_chunks_def)

lemma put_chunks_counter [simp]: "counter (put_chunks bs w) = counter w + length bs"
  by (induction bs arbitrary: w) simp_all

lemma put_chunks_calm: "calm w \<Longrightarrow> calm (put_chunks bs w)"
  by (induction bs arbitrary: w) (simp_all add: put_chunk_calm)

lemma put_chunks_fresh: "fresh w \<Longrightarrow> fresh (put_chunks bs w)"
  by (induction bs arbitrary: w) (simp_all add: put_chunk_fresh)

lemma put_chunks_observers [simp]:
  "open_now (put_chunks bs w) = open_now w"
  "open_max (put_chunks bs w) = open_max w"
  "merge_sizes (put_chunks bs w) = merge_sizes w"
  by (induction bs arbitrary: w) (simp_all add: put_chunk_def)

lemma put_chunks_other:
  "\<forall>i<length bs. x \<noteq> tmpname ''filesort_chunk_'' (counter w + i) \<Longrightarrow>
     files (put_chunks bs w) x = files w x"
proof (induction bs arbitrary: w)
  case Nil
  then show ?case by simp
next
  case (Cons b bs)
  have "\<forall>i<length bs. x \<noteq> tmpname ''filesort_chunk_'' (counter (put_chunk (sort b) w) + i)"
    using Cons.prems by force
  from Cons.IH[OF this] have "files (put_chunks (b # bs) w) x = files (put_chunk (sort b) w) x"
    by simp
  moreover from Cons.prems have "x \<noteq> tmpname ''filesort_chunk_'' (counter w)" by force
  ultimately show ?case by (simp add: put_chunk_def)
qed

lemma put_chunks_file:
  "i < length bs \<Longrightarrow>
     files (put_chunks bs w) (tmpname ''filesort_chunk_'' (counter w + i))
       = Some (Reader (concat (sort (bs ! i))) EOF)"
proof (induction bs arbitrary: w i)
  case Nil
  then show ?case by simp
next
  case (Cons b bs)
  show ?case
  proof (cases i)
    case 0
    have "\<forall>j<length bs. tmpname ''filesort_chunk_'' (counter w)
            \<noteq> tmpname ''filesort_chunk_'' (counter (put_chunk (sort b) w) + j)"
      by (auto dest: tmpname_inj)
    from put_chunks_other[OF this] 0 show ?thesis by (simp add: put_chunk_def)
  next
    case (Suc j)
    with Cons.prems have "j < length bs" by simp
    from Cons.IH[OF this, of "put_chunk (sort b) w"] Suc show ?thesis by simp
  qed
qed

lemma names_from_nth: "i < n \<Longrightarrow> names_from c n ! i = tmpname ''filesort_chunk_'' (c + i)"
  by (simp add: names_from_def)

lemma names_from_length [simp]: "length (names_from c n) = n"
  by (simp add: names_from_def)

lemma names_from_distinct: "distinct (names_from c n)"
  unfolding names_from_def by (auto simp: distinct_map intro: inj_onI dest: tmpname_inj)

lemma batches_concat: "0 < k \<Longrightarrow> concat (batches k xs) = xs"
proof (induction "length xs" arbitrary: xs rule: less_induct)
  case less
  show ?case
  proof (cases "xs = []")
    case False
    with less.prems have "length (drop k xs) < length xs" by simp
    from less.hyps[OF this less.prems] False less.prems show ?thesis
      by (simp add: batches_Cons)
  qed simp
qed

lemma batches_bounds: "b \<in> set (batches k xs) \<Longrightarrow> b \<noteq> [] \<and> length b \<le> k"
proof (induction "length xs" arbitrary: xs rule: less_induct)
  case less
  show ?case
  proof (cases "k = 0 \<or> xs = []")
    case True
    with less.prems show ?thesis by (subst (asm) batches.simps) simp
  next
    case False
    then have "length (drop k xs) < length xs" by simp
    from less.hyps[OF this] less.prems False show ?thesis
      by (auto simp: batches_Cons)
  qed
qed

lemma batches_length: "0 < k \<Longrightarrow> length (batches k xs) = (length xs + k - 1) div k"
proof (induction "length xs" arbitrary: xs rule: less_induct)
  case less
  show ?case
  proof (cases "xs = []")
    case True
    with less.prems show ?thesis by simp
  next
    case False
    with less.prems have "length (drop k xs) < length xs" by simp
    from less.hyps[OF this less.prems]
    have "length (batches k xs) = Suc ((length xs - k + k - 1) div k)"
      using False less.prems by (simp add: batches_Cons)
    also have "\<dots> = (length xs + k - 1) div k"
    proof (cases "k \<le> length xs")
      case True
      then have "length xs + k - 1 = (length xs - 1) + 1 * k" using less.prems by simp
      then have "(length xs + k - 1) div k = (length xs - 1) div k + 1"
        using less.prems by (simp only: div_mult_self1)
      with True show ?thesis by simp
    next
      case False
      with \<open>xs \<noteq> []\<close> have "(length xs + k - 1) div k = 1"
        using less.prems
        by (intro Euclidean_Rings.div_nat_eqI) (cases xs, auto)
      with False show ?thesis by simp
    qed
    finally show ?thesis .
  qed
qed

subsection \<open>The k-way merge of sorted sources\<close>

text \<open>
  The lines a source still has to give: its top line, then the complete lines its
  reader holds. A source is \<open>good\<close> when its reader ends normally and these lines
  are in order.
\<close>

definition src_lines :: "source \<Rightarrow> string list" where
  "src_lines s = top_line s # complete_lines (pending (src_r s))"

definition all_lines :: "sourceSet \<Rightarrow> string list" where
  "all_lines ss = concat (map src_lines ss)"

definition good :: "source \<Rightarrow> bool" where
  "good s \<longleftrightarrow> ending (src_r s) = EOF \<and> sorted (src_lines s)"

lemma mergeSimple_loop_Nil: "mergeSimple_loop sched [] err w world = (err, w, world)"
  by (subst mergeSimple_loop.simps) simp

lemma mergeSimple_loop_error: "mergeSimple_loop sched ss (Some e) w world = (Some e, w, world)"
  by (subst mergeSimple_loop.simps) simp

lemma mergeSimple_loop_step:
  assumes "range_order sched ss = s0 # rest"
  shows "mergeSimple_loop sched ss None w world =
           (case popMin s0 rest of
              (min_line, Some e, ss') \<Rightarrow> (Some e, w, world)
            | (min_line, None, ss') \<Rightarrow>
                (case WriteString w min_line world of
                   (err', w', world') \<Rightarrow> mergeSimple_loop sched ss' err' w' world'))"
proof -
  have "ss \<noteq> []"
  proof
    assume "ss = []"
    then have "range_order sched ss = []" by (simp add: range_order_def)
    with assms show False by simp
  qed
  then show ?thesis using assms by (subst mergeSimple_loop.simps) simp
qed

lemma range_order_mset: "mset (range_order sched ss) = mset ss"
  by (simp add: range_order_def)

lemma popMin_scan_min:
  assumes "ss = pre @ xs" "length pre = i" "m < i" "t = top_line (ss ! m)"
    and "\<forall>s\<in>set pre. t \<le> top_line s"
  shows "\<forall>s\<in>set ss. top_line (ss ! popMin_scan xs i m t) \<le> top_line s"
  using assms
proof (induction xs arbitrary: pre i m t)
  case Nil
  then show ?case by simp
next
  case (Cons x xs)
  have ss: "ss = (pre @ [x]) @ xs" and len: "length (pre @ [x]) = Suc i"
    using Cons.prems(1,2) by simp_all
  have xi: "ss ! i = x" using Cons.prems(1,2) by (simp add: nth_append)
  show ?case
  proof (cases "top_line x < t")
    case True
    have "\<forall>s\<in>set (pre @ [x]). top_line x \<le> top_line s"
      using Cons.prems(5) True by auto
    from Cons.IH[OF ss len _ _ this, of i] xi True show ?thesis by simp
  next
    case False
    have "\<forall>s\<in>set (pre @ [x]). t \<le> top_line s"
      using Cons.prems(5) False by auto
    from Cons.IH[OF ss len _ Cons.prems(4) this] Cons.prems(3) False show ?thesis by simp
  qed
qed

lemma all_lines_mset: "mset ss = mset ss' \<Longrightarrow> mset (all_lines ss) = mset (all_lines ss')"
proof -
  have "mset (all_lines xs) = sum_mset (image_mset (\<lambda>s. mset (src_lines s)) (mset xs))" for xs
    by (induction xs) (simp_all add: all_lines_def)
  then show "mset ss = mset ss' \<Longrightarrow> mset (all_lines ss) = mset (all_lines ss')"
    by simp
qed

lemma all_lines_append: "all_lines (xs @ ys) = all_lines xs @ all_lines ys"
  by (simp add: all_lines_def)

lemma all_lines_Cons: "all_lines (s # ss) = src_lines s @ all_lines ss"
  by (simp add: all_lines_def)

text \<open>
  One \<open>popMin\<close> on good sources: no error; the line returned is a least line of
  the whole set; the set keeps every other line and stays good.
\<close>

lemma popMin_good:
  assumes "\<forall>s\<in>set (s0 # rest). good s"
  shows "\<exists>l ss'. popMin s0 rest = (l, None, ss')
           \<and> mset (all_lines (s0 # rest)) = add_mset l (mset (all_lines ss'))
           \<and> (\<forall>x\<in>set (all_lines (s0 # rest)). l \<le> x)
           \<and> (\<forall>s\<in>set ss'. good s)"
proof -
  define ss where "ss = s0 # rest"
  define m where "m = popMin_scan rest 1 0 (top_line s0)"
  have m: "m < length ss"
    using popMin_scan_bound[of 0 1 rest "top_line s0"] by (simp add: m_def ss_def)
  have "\<forall>s\<in>set ss. top_line (ss ! popMin_scan rest 1 0 (top_line s0)) \<le> top_line s"
    by (rule popMin_scan_min[of ss "[s0]"]) (simp_all add: ss_def)
  then have least_top: "\<forall>s\<in>set ss. top_line (ss ! m) \<le> top_line s" by (simp only: m_def)
  from assms have goods: "\<forall>s\<in>set ss. good s" by (simp only: ss_def)
  have least: "\<forall>x\<in>set (all_lines ss). top_line (ss ! m) \<le> x"
  proof
    fix x assume "x \<in> set (all_lines ss)"
    then obtain s where s: "s \<in> set ss" and x: "x \<in> set (src_lines s)"
      by (auto simp: all_lines_def)
    from goods s have "sorted (src_lines s)" by (simp add: good_def)
    with x have "top_line s \<le> x" by (auto simp: src_lines_def)
    with least_top s show "top_line (ss ! m) \<le> x" by (meson order_trans)
  qed
  from goods m have gm: "good (ss ! m)" by simp
  obtain d where rd: "src_r (ss ! m) = Reader d EOF"
    using gm by (cases "src_r (ss ! m)") (simp add: good_def)
  have split: "ss = take m ss @ ss ! m # drop (Suc m) ss"
    using m by (simp only: id_take_nth_drop[symmetric])
  have old: "mset (all_lines ss) = mset (all_lines (take m ss)) + mset (src_lines (ss ! m))
               + mset (all_lines (drop (Suc m) ss))"
    by (subst split) (simp only: all_lines_append all_lines_Cons mset_append add.assoc)
  show ?thesis
  proof (cases "read_until d")
    case None
    then have rs: "ReadString (src_r (ss ! m)) = (d, Some EOF, Reader [] EOF)"
      by (simp add: ReadString_def rd)
    have pm: "popMin s0 rest = (top_line (ss ! m), None, take m ss @ drop (Suc m) ss)"
      using popMin_cases[OF ss_def m_def rs] by simp
    from None have "src_lines (ss ! m) = [top_line (ss ! m)]"
      by (simp add: src_lines_def rd complete_lines.simps[of d])
    with old have "mset (all_lines ss)
        = add_mset (top_line (ss ! m)) (mset (all_lines (take m ss @ drop (Suc m) ss)))"
      by (simp add: all_lines_append)
    moreover have "\<forall>s\<in>set (take m ss @ drop (Suc m) ss). good s"
      using goods by (auto dest: in_set_takeD in_set_dropD)
    ultimately show ?thesis using pm least unfolding ss_def by blast
  next
    case (Some p)
    obtain l d' where p: "p = (l, d')" by (cases p)
    with Some have rs: "ReadString (src_r (ss ! m)) = (l, None, Reader d' EOF)"
      by (simp add: ReadString_def rd)
    have pm: "popMin s0 rest = (top_line (ss ! m), None, ss[m := Source l (Reader d' EOF)])"
      using popMin_cases[OF ss_def m_def rs] by simp
    from Some p have cl: "complete_lines d = l # complete_lines d'"
      by (simp add: complete_lines.simps[of d])
    then have sl: "src_lines (ss ! m) = top_line (ss ! m) # src_lines (Source l (Reader d' EOF))"
      by (simp add: src_lines_def rd)
    have new: "ss[m := Source l (Reader d' EOF)]
                 = take m ss @ Source l (Reader d' EOF) # drop (Suc m) ss"
      using m by (rule upd_conv_take_nth_drop)
    have "mset (all_lines (ss[m := Source l (Reader d' EOF)]))
            = mset (all_lines (take m ss)) + mset (src_lines (Source l (Reader d' EOF)))
               + mset (all_lines (drop (Suc m) ss))"
      by (subst new) (simp only: all_lines_append all_lines_Cons mset_append add.assoc)
    with old sl have "mset (all_lines ss)
        = add_mset (top_line (ss ! m)) (mset (all_lines (ss[m := Source l (Reader d' EOF)])))"
      by simp
    moreover have "good (Source l (Reader d' EOF))"
      using gm sl by (simp add: good_def)
    then have "\<forall>s\<in>set (ss[m := Source l (Reader d' EOF)]). good s"
      using goods by (auto dest!: set_update_subset_insert[THEN subsetD])
    ultimately show ?thesis using pm least unfolding ss_def by blast
  qed
qed

lemma sort_least:
  assumes "mset xs = add_mset l (mset ys)" and "\<forall>x\<in>set xs. l \<le> x"
  shows "sort xs = l # sort ys"
proof (rule properties_for_sort)
  show "mset (l # sort ys) = mset xs" using assms(1) by simp
  have "set_mset (mset ys) \<subseteq> set_mset (mset xs)" by (simp add: assms(1) subset_insertI)
  then have "set ys \<subseteq> set xs" by simp
  with assms(2) show "sorted (l # sort ys)" by auto
qed

text \<open>
  The loop of \<open>mergeSimple\<close> on good sources writes their lines in sorted order,
  one \<open>WriteString\<close> a line, whatever the order in which \<open>range\<close> visits the set.
\<close>

lemma mergeSimple_loop_good:
  assumes "\<forall>s\<in>set ss. good s"
  shows "mergeSimple_loop sched ss None w world = writeChunk_loop (sort (all_lines ss)) w world"
  using assms
proof (induction "length (all_lines ss)" arbitrary: ss w world rule: less_induct)
  case less
  show ?case
  proof (cases "range_order sched ss")
    case Nil
    then have "mset ss = {#}" using range_order_mset[of sched ss] by simp
    then show ?thesis by (simp add: mergeSimple_loop_Nil all_lines_def)
  next
    case (Cons s0 rest)
    have ms: "mset (s0 # rest) = mset ss"
      using range_order_mset[of sched ss] Cons by simp
    then have "set (s0 # rest) = set ss" by (metis set_mset_mset)
    with less.prems have "\<forall>s\<in>set (s0 # rest). good s" by simp
    from popMin_good[OF this] obtain l ss'
      where pm: "popMin s0 rest = (l, None, ss')"
        and m: "mset (all_lines (s0 # rest)) = add_mset l (mset (all_lines ss'))"
        and least: "\<forall>x\<in>set (all_lines (s0 # rest)). l \<le> x"
        and goods: "\<forall>s\<in>set ss'. good s" by blast
    have al: "mset (all_lines ss) = mset (all_lines (s0 # rest))"
      using ms by (intro all_lines_mset) simp
    with m have m': "mset (all_lines ss) = add_mset l (mset (all_lines ss'))" by simp
    from al least have least': "\<forall>x\<in>set (all_lines ss). l \<le> x" by (metis set_mset_mset)
    have srt: "sort (all_lines ss) = l # sort (all_lines ss')"
      using m' least' by (rule sort_least)
    have "length (all_lines ss) = Suc (length (all_lines ss'))"
      using m' by (metis size_mset size_add_mset)
    then have shorter: "length (all_lines ss') < length (all_lines ss)" by simp
    obtain err' w' world' where ws: "WriteString w l world = (err', w', world')"
      by (cases "WriteString w l world") auto
    have step: "mergeSimple_loop sched ss None w world = mergeSimple_loop sched ss' err' w' world'"
      using mergeSimple_loop_step[OF Cons, of w world] pm ws by simp
    show ?thesis
    proof (cases err')
      case None
      with less.hyps[OF shorter goods, of w' world'] step srt ws show ?thesis by simp
    next
      case (Some e)
      with step srt ws show ?thesis by (simp add: mergeSimple_loop_error)
    qed
  qed
qed

text \<open>
  \<open>newSourceSet\<close> on readers that end normally and whose complete lines are in
  order: no error, good sources, holding all the complete lines.
\<close>

lemma newSourceSet_loop_good:
  assumes "\<forall>rd\<in>set rs. ending rd = EOF \<and> sorted (complete_lines (pending rd))"
    and "\<forall>s\<in>set acc. good s"
  shows "\<exists>ss. newSourceSet_loop rs acc = (None, ss) \<and> (\<forall>s\<in>set ss. good s)
           \<and> all_lines ss = all_lines acc @ concat (map (\<lambda>rd. complete_lines (pending rd)) rs)"
  using assms
proof (induction rs arbitrary: acc)
  case Nil
  then show ?case by simp
next
  case (Cons rd rs)
  obtain d where rd: "rd = Reader d EOF" using Cons.prems(1) by (cases rd) simp
  from Cons.prems(1) have rest: "\<forall>rd\<in>set rs. ending rd = EOF \<and> sorted (complete_lines (pending rd))"
    by simp
  show ?case
  proof (cases "read_until d")
    case None
    then have "pop (Source [] rd) = (Some EOF, Source d (Reader [] EOF))"
      by (simp add: pop_def ReadString_def rd)
    moreover from None have "complete_lines d = []" by (simp add: complete_lines.simps[of d])
    ultimately show ?thesis using Cons.IH[OF rest Cons.prems(2)] by (simp add: rd)
  next
    case (Some p)
    obtain l d' where p: "p = (l, d')" by (cases p)
    with Some have pp: "pop (Source [] rd) = (None, Source l (Reader d' EOF))"
      by (simp add: pop_def ReadString_def rd)
    from Some p have cl: "complete_lines d = l # complete_lines d'"
      by (simp add: complete_lines.simps[of d])
    with Cons.prems(1) have "good (Source l (Reader d' EOF))"
      by (simp add: good_def src_lines_def rd)
    with Cons.prems(2) have "\<forall>s\<in>set (acc @ [Source l (Reader d' EOF)]). good s" by simp
    from Cons.IH[OF rest this] pp cl show ?thesis
      by (simp add: rd all_lines_append all_lines_Cons src_lines_def all_lines_def)
  qed
qed

lemma mergeSimple_sorted:
  assumes "\<forall>rd\<in>set rs. ending rd = EOF \<and> sorted (complete_lines (pending rd))"
  shows "mergeSimple sched rs w world
           = writeChunk_loop (sort (concat (map (\<lambda>rd. complete_lines (pending rd)) rs))) w world"
proof -
  from newSourceSet_loop_good[OF assms, of "[]"] obtain ss
    where "newSourceSet rs = (None, ss)" and "\<forall>s\<in>set ss. good s"
      and "all_lines ss = concat (map (\<lambda>rd. complete_lines (pending rd)) rs)"
    by (auto simp: newSourceSet_def all_lines_def)
  then show ?thesis by (simp add: mergeSimple_def mergeSimple_loop_good)
qed

subsection \<open>What the operations leave alone\<close>

text \<open>\<open>w'\<close> differs from \<open>w\<close> at most in the failures still scheduled.\<close>

definition only_faults :: "world \<Rightarrow> world \<Rightarrow> bool" where
  "only_faults w w' \<longleftrightarrow> (\<exists>fs. w' = w\<lparr>faults := fs\<rparr>)"

lemma only_faults_refl [simp]: "only_faults w w"
  unfolding only_faults_def by (rule exI[of _ "faults w"]) simp

lemma only_faults_trans: "only_faults w w1 \<Longrightarrow> only_faults w1 w2 \<Longrightarrow> only_faults w w2"
  unfolding only_faults_def by auto

lemma only_faults_fields:
  assumes "only_faults w w'"
  shows "files w' = files w" "counter w' = counter w" "open_now w' = open_now w"
    "open_max w' = open_max w" "merge_sizes w' = merge_sizes w"
  using assms unfolding only_faults_def by auto

lemma fault_only_faults: "fault w = (b, w') \<Longrightarrow> only_faults w w'"
proof (cases "faults w")
  case Nil
  assume "fault w = (b, w')"
  with Nil show ?thesis by (simp add: fault_def)
next
  case (Cons a fs)
  assume "fault w = (b, w')"
  with Cons show ?thesis by (auto simp: fault_def only_faults_def)
qed

lemma WriteString_only_faults: "WriteString out s w = (err, out', w') \<Longrightarrow> only_faults w w'"
  unfolding WriteString_def by (auto split: prod.splits bool.splits dest: fault_only_faults)

lemma writeChunk_loop_only_faults:
  "writeChunk_loop lines buf w = (err, buf', w') \<Longrightarrow> only_faults w w'"
proof (induction lines arbitrary: buf w)
  case Nil
  then show ?case by simp
next
  case (Cons l lines)
  obtain e b1 w1 where ws: "WriteString buf l w = (e, b1, w1)"
    by (cases "WriteString buf l w") auto
  then have 1: "only_faults w w1" by (rule WriteString_only_faults)
  show ?case
  proof (cases e)
    case None
    with Cons.prems ws have "writeChunk_loop lines b1 w1 = (err, buf', w')" by simp
    from Cons.IH[OF this] 1 show ?thesis by (rule only_faults_trans[rotated])
  next
    case (Some x)
    with Cons.prems ws 1 show ?thesis by simp
  qed
qed

lemma mergeSimple_loop_only_faults:
  "mergeSimple_loop sched ss err w world = (err', w', world') \<Longrightarrow> only_faults world world'"
proof (induction sched ss err w world rule: mergeSimple_loop.induct)
  case (1 sched sources err w world)
  show ?case
  proof (cases "0 < length sources \<and> err = None")
    case False
    with "1.prems" show ?thesis by (subst (asm) mergeSimple_loop.simps) auto
  next
    case True
    then have err: "err = None" by simp
    show ?thesis
    proof (cases "range_order sched sources")
      case Nil
      with "1.prems" True show ?thesis by (subst (asm) mergeSimple_loop.simps) auto
    next
      case (Cons s0 rest)
      obtain l e ss' where pm: "popMin s0 rest = (l, e, ss')"
        by (cases "popMin s0 rest") auto
      obtain e2 w2 world2 where ws: "WriteString w l world = (e2, w2, world2)"
        by (cases "WriteString w l world") auto
      show ?thesis
      proof (cases e)
        case (Some x)
        with "1.prems" err pm mergeSimple_loop_step[OF Cons, of w world] show ?thesis by simp
      next
        case None
        with "1.prems" err pm ws mergeSimple_loop_step[OF Cons, of w world]
        have rec: "mergeSimple_loop sched ss' e2 w2 world2 = (err', w', world')" by simp
        have "only_faults world2 world'"
          using "1.IH"[OF True Cons pm[symmetric] refl None ws[symmetric] refl rec] .
        with WriteString_only_faults[OF ws] show ?thesis by (rule only_faults_trans)
      qed
    qed
  qed
qed

lemma mergeSimple_only_faults:
  "mergeSimple sched rs w world = (err, w', world') \<Longrightarrow> only_faults world world'"
  unfolding mergeSimple_def
  by (auto split: prod.splits option.splits dest: mergeSimple_loop_only_faults)

lemma deleteFile_fields [simp]:
  "files (deleteFile n w) = (files w)(n := None)" "counter (deleteFile n w) = counter w"
  "faults (deleteFile n w) = faults w" "open_now (deleteFile n w) = open_now w"
  "open_max (deleteFile n w) = open_max w" "merge_sizes (deleteFile n w) = merge_sizes w"
  by (simp_all add: deleteFile_def)

lemma deleteFiles_files: "files (deleteFiles ns w) = (\<lambda>x. if x \<in> set ns then None else files w x)"
  by (induction ns arbitrary: w) (auto simp: fun_eq_iff)

lemma deleteFiles_fields [simp]:
  "counter (deleteFiles ns w) = counter w" "faults (deleteFiles ns w) = faults w"
  "open_now (deleteFiles ns w) = open_now w" "open_max (deleteFiles ns w) = open_max w"
  "merge_sizes (deleteFiles ns w) = merge_sizes w"
  by (induction ns arbitrary: w) simp_all

lemma os_Close_fields [simp]:
  "files (os_Close k w) = files w" "counter (os_Close k w) = counter w"
  "faults (os_Close k w) = faults w" "open_now (os_Close k w) = open_now w - k"
  "open_max (os_Close k w) = open_max w" "merge_sizes (os_Close k w) = merge_sizes w"
  by (simp_all add: os_Close_def)

text \<open>
  Opening the inputs changes only the count of open files: one more for each file
  opened, and the high-water mark follows.
\<close>

lemma os_Open_fields:
  assumes "os_Open n w = (r, w')"
  shows "files w' = files w \<and> counter w' = counter w \<and> faults w' = faults w
    \<and> merge_sizes w' = merge_sizes w
    \<and> (case r of Inl e \<Rightarrow> w' = w \<and> files w n = None
                  | Inr f \<Rightarrow> files w n = Some f \<and> open_now w' = Suc (open_now w)
                       \<and> open_max w' = max (open_max w) (Suc (open_now w)))"
  using assms by (auto simp: os_Open_def split: option.splits)

lemma open_inputs_fields:
  assumes "open_inputs names fs w = (fs', err, w')"
  shows "files w' = files w \<and> counter w' = counter w \<and> faults w' = faults w
    \<and> merge_sizes w' = merge_sizes w
    \<and> open_now w' + length fs = open_now w + length fs'
    \<and> length fs \<le> length fs'
    \<and> length fs' \<le> length fs + length names
    \<and> open_max w' \<le> max (open_max w) (open_now w')
    \<and> open_max w \<le> open_max w'"
  using assms
proof (induction names arbitrary: fs w)
  case Nil
  then show ?case by simp
next
  case (Cons n names)
  obtain r w1 where op: "os_Open n w = (r, w1)" by (cases "os_Open n w") auto
  note f = os_Open_fields[OF op]
  show ?case
  proof (cases r)
    case (Inl e)
    with Cons.prems op f show ?thesis by auto
  next
    case (Inr rd)
    with Cons.prems op have "open_inputs names (fs @ [rd]) w1 = (fs', err, w')" by simp
    from Cons.IH[OF this] f Inr show ?thesis by (simp; linarith)
  qed
qed

lemma TempFile_effect:
  assumes "TempFile prefix w = (name, err, w')"
  shows "faults w' = tl (faults w) \<or> faults w' = faults w"
    and "open_now w' = open_now w" and "open_max w' = open_max w"
    and "merge_sizes w' = merge_sizes w" and "counter w \<le> counter w'"
    and "err \<noteq> None \<Longrightarrow> name = [] \<and> files w' = files w"
    and "err = None \<Longrightarrow> name \<noteq> [] \<and> files w name = None
           \<and> files w' = (files w)(name \<mapsto> Reader [] EOF)"
proof -
  obtain b w1 where f: "fault w = (b, w1)" by (cases "fault w") auto
  from fault_only_faults[OF f] have of1: "only_faults w w1" .
  note fl = only_faults_fields[OF of1]
  have fs: "faults w1 = tl (faults w) \<or> faults w1 = faults w"
    using f by (auto simp: fault_def split: list.splits)
  from assms f fl fs show "faults w' = tl (faults w) \<or> faults w' = faults w"
    by (auto simp: TempFile_def Let_def split: if_splits bool.splits)
  from assms f fl show "open_now w' = open_now w" "open_max w' = open_max w"
    "merge_sizes w' = merge_sizes w" "counter w \<le> counter w'"
    by (auto simp: TempFile_def Let_def split: if_splits bool.splits)
  from assms f fl show "err \<noteq> None \<Longrightarrow> name = [] \<and> files w' = files w"
    by (auto simp: TempFile_def Let_def split: if_splits bool.splits)
  from assms f fl show "err = None \<Longrightarrow> name \<noteq> [] \<and> files w name = None
           \<and> files w' = (files w)(name \<mapsto> Reader [] EOF)"
    by (auto simp: TempFile_def Let_def tmpname_not_Nil split: if_splits bool.splits)
qed

lemma Flush_effect:
  assumes "Flush out name w = (err, w')"
  shows "open_now w' = open_now w" and "open_max w' = open_max w"
    and "merge_sizes w' = merge_sizes w" and "counter w' = counter w"
    and "err \<noteq> None \<Longrightarrow> files w' = files w"
    and "err = None \<Longrightarrow> files w' = (files w)(name \<mapsto> Reader out EOF)"
proof -
  obtain b w1 where f: "fault w = (b, w1)" by (cases "fault w") auto
  note fl = only_faults_fields[OF fault_only_faults[OF f]]
  from assms f fl show "open_now w' = open_now w" "open_max w' = open_max w"
    "merge_sizes w' = merge_sizes w" "counter w' = counter w"
    "err \<noteq> None \<Longrightarrow> files w' = files w"
    "err = None \<Longrightarrow> files w' = (files w)(name \<mapsto> Reader out EOF)"
    by (auto simp: Flush_def split: bool.splits)
qed

text \<open>
  \<open>mergeSimpleFiles\<close> step by step: the worlds and values between its calls, for
  a call in which the output file could be created.
\<close>

lemma mergeSimpleFiles_created:
  assumes "TempFile ''filesort_merge_'' (w\<lparr>merge_sizes := merge_sizes w @ [length names]\<rparr>)
             = (outname, None, w1)"
  obtains fs err1 w2 err2 out w3 err3 w4 where
    "open_inputs names [] w1 = (fs, err1, w2)"
    "(case err1 of None \<Rightarrow> mergeSimple sched fs [] w2 | Some e \<Rightarrow> (Some e, [], w2)) = (err2, out, w3)"
    "(case err2 of None \<Rightarrow> Flush out outname w3 | Some e \<Rightarrow> (Some e, w3)) = (err3, w4)"
    "mergeSimpleFiles sched names w =
       (outname, err3, deleteFiles names (os_Close (length fs)
                          (if err3 \<noteq> None then deleteFile outname w4 else w4)))"
proof -
  obtain fs err1 w2 where 1: "open_inputs names [] w1 = (fs, err1, w2)"
    by (cases "open_inputs names [] w1") auto
  obtain err2 out w3 where 2:
    "(case err1 of None \<Rightarrow> mergeSimple sched fs [] w2 | Some e \<Rightarrow> (Some e, [], w2)) = (err2, out, w3)"
    by (cases "(case err1 of None \<Rightarrow> mergeSimple sched fs [] w2 | Some e \<Rightarrow> (Some e, [], w2))") auto
  obtain err3 w4 where 3:
    "(case err2 of None \<Rightarrow> Flush out outname w3 | Some e \<Rightarrow> (Some e, w3)) = (err3, w4)"
    by (cases "(case err2 of None \<Rightarrow> Flush out outname w3 | Some e \<Rightarrow> (Some e, w3))") auto
  have "mergeSimpleFiles sched names w =
       (outname, err3, deleteFiles names (os_Close (length fs)
                          (if err3 \<noteq> None then deleteFile outname w4 else w4)))"
    unfolding mergeSimpleFiles_def using assms 1 2 3 by simp
  with 1 2 3 show ?thesis by (rule that)
qed

lemma mergeSimpleFiles_effect:
  assumes "mergeSimpleFiles sched names w = (name, err, w')"
  shows "\<forall>n\<in>set names. files w' n = None"
    and "err \<noteq> None \<longrightarrow> files w' name = None \<or> (name = [] \<and> files w' name = files w name)"
    and "\<forall>x. x \<notin> set names \<longrightarrow> x \<noteq> name \<longrightarrow> files w' x = files w x"
    and "name = [] \<longrightarrow> err \<noteq> None \<and> (\<forall>x. x \<notin> set names \<longrightarrow> files w' x = files w x)"
    and "err = None \<longrightarrow> name \<notin> set names \<longrightarrow> (\<exists>out. files w' name = Some (Reader out EOF))"
    and "name \<noteq> [] \<longrightarrow> files w name = None"
    and "err = None \<longrightarrow> (\<forall>n\<in>set names. n = name \<or> files w n \<noteq> None)"
    and "open_now w' = open_now w"
    and "open_max w' \<le> max (open_max w) (open_now w + length names) \<and> open_max w \<le> open_max w'"
    and "merge_sizes w' = merge_sizes w @ [length names]"
    and "counter w \<le> counter w'"
proof -
  define w0 where "w0 = w\<lparr>merge_sizes := merge_sizes w @ [length names]\<rparr>"
  obtain outname e0 w1 where tf: "TempFile ''filesort_merge_'' w0 = (outname, e0, w1)"
    by (cases "TempFile ''filesort_merge_'' w0") auto
  note t = TempFile_effect[OF tf]
  have w0: "files w0 = files w" "counter w0 = counter w" "open_now w0 = open_now w"
    "open_max w0 = open_max w" "merge_sizes w0 = merge_sizes w @ [length names]"
    by (simp_all add: w0_def)
  have all: "(\<forall>n\<in>set names. files w' n = None)
    \<and> (err \<noteq> None \<longrightarrow> files w' name = None \<or> (name = [] \<and> files w' name = files w name))
    \<and> (\<forall>x. x \<notin> set names \<longrightarrow> x \<noteq> name \<longrightarrow> files w' x = files w x)
    \<and> (name = [] \<longrightarrow> err \<noteq> None \<and> (\<forall>x. x \<notin> set names \<longrightarrow> files w' x = files w x))
    \<and> (err = None \<longrightarrow> name \<notin> set names \<longrightarrow> (\<exists>out. files w' name = Some (Reader out EOF)))
    \<and> (name \<noteq> [] \<longrightarrow> files w name = None)
    \<and> (err = None \<longrightarrow> (\<forall>n\<in>set names. n = name \<or> files w n \<noteq> None))
    \<and> open_now w' = open_now w
    \<and> open_max w' \<le> max (open_max w) (open_now w + length names) \<and> open_max w \<le> open_max w'
    \<and> merge_sizes w' = merge_sizes w @ [length names]
    \<and> counter w \<le> counter w'"
  proof (cases e0)
    case (Some e)
    with tf have "mergeSimpleFiles sched names w = ([], Some e, deleteFiles names w1)"
      by (simp add: mergeSimpleFiles_def w0_def)
    with assms have r: "name = []" "err = Some e" "w' = deleteFiles names w1" by simp_all
    from t(6) Some have "files w1 = files w0" by simp
    with r t(2-5) w0 show ?thesis by (simp add: deleteFiles_files)
  next
    case None
    with tf have tf': "TempFile ''filesort_merge_'' (w\<lparr>merge_sizes := merge_sizes w @ [length names]\<rparr>)
             = (outname, None, w1)" by (simp add: w0_def)
    from t(7) None w0 have o: "outname \<noteq> []" "files w outname = None"
      and f1: "files w1 = (files w)(outname \<mapsto> Reader [] EOF)" by simp_all
    from mergeSimpleFiles_created[OF tf', of sched] obtain fs err1 w2 err2 out w3 err3 w4
      where oi: "open_inputs names [] w1 = (fs, err1, w2)"
        and ms: "(case err1 of None \<Rightarrow> mergeSimple sched fs [] w2 | Some e \<Rightarrow> (Some e, [], w2)) = (err2, out, w3)"
        and fl: "(case err2 of None \<Rightarrow> Flush out outname w3 | Some e \<Rightarrow> (Some e, w3)) = (err3, w4)"
        and res: "mergeSimpleFiles sched names w =
           (outname, err3, deleteFiles names (os_Close (length fs)
                          (if err3 \<noteq> None then deleteFile outname w4 else w4)))"
      by blast
    from res assms have r: "name = outname" "err = err3"
      "w' = deleteFiles names (os_Close (length fs) (if err3 \<noteq> None then deleteFile outname w4 else w4))"
      by simp_all
    note o2 = open_inputs_fields[OF oi]
    have of3: "only_faults w2 w3"
      using ms by (cases err1) (auto dest: mergeSimple_only_faults)
    note f3 = only_faults_fields[OF of3]
    have e2: "err1 \<noteq> None \<longrightarrow> err2 \<noteq> None" using ms by (cases err1) auto
    have f4: "open_now w4 = open_now w3" "open_max w4 = open_max w3"
      "merge_sizes w4 = merge_sizes w3" "counter w4 = counter w3"
      "err3 \<noteq> None \<longrightarrow> files w4 = files w3"
      "err3 = None \<longrightarrow> files w4 = (files w3)(outname \<mapsto> Reader out EOF)"
      using fl by (cases err2; auto dest: Flush_effect)+
    have e3: "err2 \<noteq> None \<longrightarrow> err3 \<noteq> None" using fl by (cases err2) auto
    have opened: "err1 = None \<longrightarrow> (\<forall>n\<in>set names. files w1 n \<noteq> None)"
    proof -
      have "open_inputs ns acc v = (acc', None, v') \<Longrightarrow> \<forall>n\<in>set ns. files v n \<noteq> None"
        for ns acc v acc' v'
      proof (induction ns arbitrary: acc v)
        case Nil
        then show ?case by simp
      next
        case (Cons n ns)
        obtain r v1 where op: "os_Open n v = (r, v1)" by (cases "os_Open n v") auto
        with Cons.prems obtain f where "r = Inr f" by (cases r) auto
        with Cons.prems op Cons.IH[of "acc @ [f]" v1] os_Open_fields[OF op] show ?case
          by auto
      qed
      with oi show ?thesis by blast
    qed
    have files4: "files w4 = (if err3 = None then (files w)(outname \<mapsto> Reader out EOF)
                              else (files w)(outname \<mapsto> Reader [] EOF))"
      using f4(5,6) f3(1) o2 f1 by (auto simp: fun_eq_iff)
    have fw': "files w' = (\<lambda>x. if x \<in> set names then None
                    else if err3 = None then ((files w)(outname \<mapsto> Reader out EOF)) x
                    else ((files w)(outname := None)) x)"
      unfolding r(3) by (auto simp: deleteFiles_files files4 fun_eq_iff)
    have on: "open_now w' = open_now w"
      unfolding r(3) using o2 f3 f4 t(2) w0 by simp
    have "open_now w2 = open_now w + length fs \<and> length fs \<le> length names
      \<and> open_max w2 \<le> max (open_max w) (open_now w2) \<and> open_max w \<le> open_max w2"
      using o2 t(2,3) w0 by auto
    then have om2: "open_max w2 \<le> max (open_max w) (open_now w + length names)
        \<and> open_max w \<le> open_max w2" by linarith
    have "open_max w' = open_max w2"
      unfolding r(3) using f3 f4 by simp
    with om2 have om: "open_max w' \<le> max (open_max w) (open_now w + length names) \<and> open_max w \<le> open_max w'"
      by simp
    have msz: "merge_sizes w' = merge_sizes w @ [length names]"
      unfolding r(3) using o2 f3 f4 t(4) w0 by simp
    have cn: "counter w \<le> counter w'"
      unfolding r(3) using o2 f3 f4 t(5) w0 by simp
    have g: "err = None \<longrightarrow> (\<forall>n\<in>set names. n = name \<or> files w n \<noteq> None)"
      using opened e2 e3 r(1,2) f1 by (auto split: if_splits)
    have c1: "\<forall>n\<in>set names. files w' n = None" by (simp add: fw')
    have c2: "err \<noteq> None \<longrightarrow> files w' name = None \<or> (name = [] \<and> files w' name = files w name)"
      by (simp add: fw' r(1,2))
    have c3: "\<forall>x. x \<notin> set names \<longrightarrow> x \<noteq> name \<longrightarrow> files w' x = files w x"
      by (simp add: fw' r(1))
    have c4: "name = [] \<longrightarrow> err \<noteq> None \<and> (\<forall>x. x \<notin> set names \<longrightarrow> files w' x = files w x)"
      using o(1) r(1) by simp
    have c5: "err = None \<longrightarrow> name \<notin> set names \<longrightarrow> (\<exists>out. files w' name = Some (Reader out EOF))"
      by (simp add: fw' r(1,2))
    have c6: "name \<noteq> [] \<longrightarrow> files w name = None" using o(2) r(1) by simp
    show ?thesis
      by (intro conjI) (rule c1 c2 c3 c4 c5 c6 g on msz cn om[THEN conjunct1] om[THEN conjunct2])+
  qed
  show "\<forall>n\<in>set names. files w' n = None" by (rule all[THEN conjunct1])
  show "err \<noteq> None \<longrightarrow> files w' name = None \<or> (name = [] \<and> files w' name = files w name)" by (rule all[THEN conjunct2, THEN conjunct1])
  show "\<forall>x. x \<notin> set names \<longrightarrow> x \<noteq> name \<longrightarrow> files w' x = files w x" by (rule all[THEN conjunct2, THEN conjunct2, THEN conjunct1])
  show "name = [] \<longrightarrow> err \<noteq> None \<and> (\<forall>x. x \<notin> set names \<longrightarrow> files w' x = files w x)" by (rule all[THEN conjunct2, THEN conjunct2, THEN conjunct2, THEN conjunct1])
  show "err = None \<longrightarrow> name \<notin> set names \<longrightarrow> (\<exists>out. files w' name = Some (Reader out EOF))" by (rule all[THEN conjunct2, THEN conjunct2, THEN conjunct2, THEN conjunct2, THEN conjunct1])
  show "name \<noteq> [] \<longrightarrow> files w name = None" by (rule all[THEN conjunct2, THEN conjunct2, THEN conjunct2, THEN conjunct2, THEN conjunct2, THEN conjunct1])
  show "err = None \<longrightarrow> (\<forall>n\<in>set names. n = name \<or> files w n \<noteq> None)" by (rule all[THEN conjunct2, THEN conjunct2, THEN conjunct2, THEN conjunct2, THEN conjunct2, THEN conjunct2, THEN conjunct1])
  show "open_now w' = open_now w" by (rule all[THEN conjunct2, THEN conjunct2, THEN conjunct2, THEN conjunct2, THEN conjunct2, THEN conjunct2, THEN conjunct2, THEN conjunct1])
  show "open_max w' \<le> max (open_max w) (open_now w + length names) \<and> open_max w \<le> open_max w'"
    by (rule conjI[OF all[THEN conjunct2, THEN conjunct2, THEN conjunct2, THEN conjunct2, THEN conjunct2, THEN conjunct2, THEN conjunct2, THEN conjunct2, THEN conjunct1] all[THEN conjunct2, THEN conjunct2, THEN conjunct2, THEN conjunct2, THEN conjunct2, THEN conjunct2, THEN conjunct2, THEN conjunct2, THEN conjunct2, THEN conjunct1]])
  show "merge_sizes w' = merge_sizes w @ [length names]" by (rule all[THEN conjunct2, THEN conjunct2, THEN conjunct2, THEN conjunct2, THEN conjunct2, THEN conjunct2, THEN conjunct2, THEN conjunct2, THEN conjunct2, THEN conjunct2, THEN conjunct1])
  show "counter w \<le> counter w'" by (rule all[THEN conjunct2, THEN conjunct2, THEN conjunct2, THEN conjunct2, THEN conjunct2, THEN conjunct2, THEN conjunct2, THEN conjunct2, THEN conjunct2, THEN conjunct2, THEN conjunct2])
qed

subsection \<open>Open files in the merge tree\<close>

text \<open>
  Nothing is open, no more than \<open>limit\<close> input files were ever open at once, and no
  call of \<open>mergeSimpleFiles\<close> received more than \<open>limit\<close> names.
\<close>

definition within_limit :: "int \<Rightarrow> world \<Rightarrow> bool" where
  "within_limit limit w \<longleftrightarrow>
     open_now w = 0 \<and> int (open_max w) \<le> limit \<and> (\<forall>k\<in>set (merge_sizes w). int k \<le> limit)"

lemma mergeSimpleFiles_within_limit:
  assumes "within_limit limit w" "int (length names) \<le> limit"
  shows "within_limit limit (snd (snd (mergeSimpleFiles sched names w)))"
proof -
  obtain name err w' where m: "mergeSimpleFiles sched names w = (name, err, w')"
    by (cases "mergeSimpleFiles sched names w") auto
  note e = mergeSimpleFiles_effect(8-10)[OF m]
  from assms e(1) have "open_now w' = 0" by (simp add: within_limit_def)
  moreover from assms e(2) have "int (open_max w') \<le> limit"
    by (simp add: within_limit_def) linarith
  moreover from assms e(3) have "\<forall>k\<in>set (merge_sizes w'). int k \<le> limit"
    by (simp add: within_limit_def)
  ultimately show ?thesis using m by (simp add: within_limit_def)
qed

lemma merge_groups_within_limit:
  assumes "\<And>names w. within_limit limit w \<Longrightarrow> within_limit limit (snd (merge sched fuel names limit w))"
    and "within_limit limit w"
  shows "within_limit limit (snd (merge_groups sched fuel groups limit acc w))"
  using assms(2)
proof (induction groups arbitrary: acc w)
  case Nil
  then show ?case by simp
next
  case (Cons g groups)
  obtain r w1 where m: "merge sched fuel g limit w = (r, w1)"
    by (cases "merge sched fuel g limit w") auto
  from assms(1)[OF Cons.prems, of g] m have w1: "within_limit limit w1" by simp
  show ?case
  proof (cases r)
    case (Return p)
    obtain name err where p: "p = (name, err)" by (cases p)
    show ?thesis
    proof (cases err)
      case None
      with m Return p Cons.IH[OF w1] show ?thesis by (simp add: Let_def)
    next
      case (Some e)
      with m Return p w1 show ?thesis by (simp add: Let_def)
    qed
  qed (use m w1 in simp_all)
qed

lemma merge_within_limit:
  "within_limit limit w \<Longrightarrow> within_limit limit (snd (merge sched fuel names limit w))"
proof (induction fuel arbitrary: names w)
  case 0
  then show ?case by simp
next
  case (Suc fuel)
  show ?case
  proof (cases "length names < 2")
    case True
    then have "names = [] \<or> (\<exists>n. names = [n])" by (cases names; cases "tl names") auto
    with Suc.prems show ?thesis by (auto simp: merge.simps(2))
  next
    case False
    then have two: "2 \<le> length names" by simp
    show ?thesis
    proof (cases "int (length names) \<le> limit")
      case True
      with merge_direct[OF two True, of sched fuel w]
        mergeSimpleFiles_within_limit[OF Suc.prems True, of sched]
      show ?thesis by (simp split: prod.splits)
    next
      case False
      from two obtain a b rest where names: "names = a # b # rest"
        by (cases names; cases "tl names") auto
      show ?thesis
      proof (cases "strSliceSplit names limit")
        case None
        with False names Suc.prems show ?thesis by (simp add: merge.simps(2))
      next
        case (Some groups)
        obtain r w1 where g: "merge_groups sched fuel groups limit [] w = (r, w1)"
          by (cases "merge_groups sched fuel groups limit [] w") auto
        from merge_groups_within_limit[of limit sched fuel w groups "[]"] Suc.IH Suc.prems g
        have w1: "within_limit limit w1" by simp
        show ?thesis
        proof (cases r)
          case (Return p)
          obtain reduced err where p: "p = (reduced, err)" by (cases p)
          show ?thesis
          proof (cases err)
            case None
            with False names Some g Return p Suc.IH[OF w1, of reduced] show ?thesis
              by (simp add: merge.simps(2))
          next
            case (Some e)
            with False names \<open>strSliceSplit names limit = Some groups\<close> g Return p w1 show ?thesis
              by (simp add: merge.simps(2))
          qed
        qed (use False names Some g w1 in \<open>simp_all add: merge.simps(2)\<close>)
      qed
    qed
  qed
qed

subsection \<open>Merging readable files without failure\<close>

lemma popMin_eof:
  assumes "\<forall>s\<in>set (s0 # rest). ending (src_r s) = EOF"
  shows "\<exists>l ss'. popMin s0 rest = (l, None, ss') \<and> (\<forall>s\<in>set ss'. ending (src_r s) = EOF)"
proof -
  define ss where "ss = s0 # rest"
  define m where "m = popMin_scan rest 1 0 (top_line s0)"
  have m: "m < length ss"
    using popMin_scan_bound[of 0 1 rest "top_line s0"] by (simp add: m_def ss_def)
  from assms have eofs: "\<forall>s\<in>set ss. ending (src_r s) = EOF" by (simp only: ss_def)
  with m have "ending (src_r (ss ! m)) = EOF" by simp
  then obtain d where rd: "src_r (ss ! m) = Reader d EOF"
    by (cases "src_r (ss ! m)") simp
  show ?thesis
  proof (cases "read_until d")
    case None
    then have rs: "ReadString (src_r (ss ! m)) = (d, Some EOF, Reader [] EOF)"
      by (simp add: ReadString_def rd)
    have "popMin s0 rest = (top_line (ss ! m), None, take m ss @ drop (Suc m) ss)"
      using popMin_cases[OF ss_def m_def rs] by simp
    moreover have "\<forall>s\<in>set (take m ss @ drop (Suc m) ss). ending (src_r s) = EOF"
      using eofs by (auto dest: in_set_takeD in_set_dropD)
    ultimately show ?thesis by blast
  next
    case (Some p)
    obtain l d' where p: "p = (l, d')" by (cases p)
    with Some have rs: "ReadString (src_r (ss ! m)) = (l, None, Reader d' EOF)"
      by (simp add: ReadString_def rd)
    have "popMin s0 rest = (top_line (ss ! m), None, ss[m := Source l (Reader d' EOF)])"
      using popMin_cases[OF ss_def m_def rs] by simp
    moreover have "\<forall>s\<in>set (ss[m := Source l (Reader d' EOF)]). ending (src_r s) = EOF"
      using eofs by (auto dest!: set_update_subset_insert[THEN subsetD])
    ultimately show ?thesis by blast
  qed
qed

lemma mergeSimple_loop_eof:
  assumes "\<forall>s\<in>set ss. ending (src_r s) = EOF" and "calm world"
  shows "\<exists>out. mergeSimple_loop sched ss None w world = (None, w @ out, world)"
  using assms(1)
proof (induction "weight ss" arbitrary: ss w rule: less_induct)
  case less
  show ?case
  proof (cases "range_order sched ss")
    case Nil
    then have "mset ss = {#}" using range_order_mset[of sched ss] by simp
    then show ?thesis by (simp add: mergeSimple_loop_Nil)
  next
    case (Cons s0 rest)
    have ms: "mset (s0 # rest) = mset ss"
      using range_order_mset[of sched ss] Cons by simp
    then have "set (s0 # rest) = set ss" by (metis set_mset_mset)
    with less.prems have "\<forall>s\<in>set (s0 # rest). ending (src_r s) = EOF" by simp
    from popMin_eof[OF this] obtain l ss'
      where pm: "popMin s0 rest = (l, None, ss')"
        and eofs: "\<forall>s\<in>set ss'. ending (src_r s) = EOF" by blast
    have "weight ss' < weight (s0 # rest)" using pm by (rule popMin_weight)
    also have "weight (s0 # rest) = weight ss" using ms by (rule weight_mset)
    finally have smaller: "weight ss' < weight ss" .
    have ws: "WriteString w l world = (None, w @ l, world)"
      using assms(2) by (simp add: WriteString_def fault_calm)
    have step: "mergeSimple_loop sched ss None w world = mergeSimple_loop sched ss' None (w @ l) world"
      using mergeSimple_loop_step[OF Cons, of w world] pm ws by simp
    from less.hyps[OF smaller eofs, of "w @ l"] obtain out
      where "mergeSimple_loop sched ss' None (w @ l) world = (None, (w @ l) @ out, world)" by blast
    with step have "mergeSimple_loop sched ss None w world = (None, w @ (l @ out), world)" by simp
    then show ?thesis by blast
  qed
qed

lemma newSourceSet_loop_eof:
  assumes "\<forall>rd\<in>set rs. ending rd = EOF" and "\<forall>s\<in>set acc. ending (src_r s) = EOF"
  shows "\<exists>ss. newSourceSet_loop rs acc = (None, ss) \<and> (\<forall>s\<in>set ss. ending (src_r s) = EOF)"
  using assms
proof (induction rs arbitrary: acc)
  case Nil
  then show ?case by simp
next
  case (Cons rd rs)
  obtain d where rd: "rd = Reader d EOF" using Cons.prems(1) by (cases rd) simp
  from Cons.prems(1) have rest: "\<forall>rd\<in>set rs. ending rd = EOF" by simp
  show ?case
  proof (cases "read_until d")
    case None
    then have "pop (Source [] rd) = (Some EOF, Source d (Reader [] EOF))"
      by (simp add: pop_def ReadString_def rd)
    then show ?thesis using Cons.IH[OF rest Cons.prems(2)] by simp
  next
    case (Some p)
    obtain l d' where p: "p = (l, d')" by (cases p)
    with Some have pp: "pop (Source [] rd) = (None, Source l (Reader d' EOF))"
      by (simp add: pop_def ReadString_def rd)
    from Cons.prems(2) have "\<forall>s\<in>set (acc @ [Source l (Reader d' EOF)]). ending (src_r s) = EOF"
      by simp
    from Cons.IH[OF rest this] pp show ?thesis by simp
  qed
qed

lemma mergeSimple_eof:
  assumes "\<forall>rd\<in>set rs. ending rd = EOF" and "calm world"
  shows "\<exists>out. mergeSimple sched rs w world = (None, w @ out, world)"
proof -
  from newSourceSet_loop_eof[OF assms(1), of "[]"] obtain ss
    where "newSourceSet rs = (None, ss)" and "\<forall>s\<in>set ss. ending (src_r s) = EOF"
    by (auto simp: newSourceSet_def)
  with mergeSimple_loop_eof[OF _ assms(2), of ss sched w] show ?thesis
    by (simp add: mergeSimple_def)
qed

lemma mergeSimple_sorted_calm:
  assumes "\<forall>rd\<in>set rs. ending rd = EOF \<and> sorted (complete_lines (pending rd))" and "calm world"
  shows "mergeSimple sched rs w world
           = (None, w @ concat (sort (concat (map (\<lambda>rd. complete_lines (pending rd)) rs))), world)"
  using mergeSimple_sorted[OF assms(1)] assms(2) by (simp add: writeChunk_loop_calm)


text \<open>
  A file is \<open>readable\<close> when it exists and reading it ends normally; its \<open>content\<close>
  is its bytes. A \<open>sorted_chunk\<close> is a readable file made of newline-terminated
  lines in order, as \<open>writeChunk\<close> and a successful merge write them.
\<close>

definition readable :: "world \<Rightarrow> string \<Rightarrow> bool" where
  "readable w n \<longleftrightarrow> (\<exists>d. files w n = Some (Reader d EOF))"

definition content :: "world \<Rightarrow> string \<Rightarrow> string" where
  "content w n = (case files w n of None \<Rightarrow> [] | Some rd \<Rightarrow> pending rd)"

definition chunk_lines :: "world \<Rightarrow> string \<Rightarrow> string list" where
  "chunk_lines w n = complete_lines (content w n)"

definition sorted_chunk :: "world \<Rightarrow> string \<Rightarrow> bool" where
  "sorted_chunk w n \<longleftrightarrow>
     readable w n \<and> (\<exists>ls. content w n = concat ls \<and> sorted ls \<and> (\<forall>l\<in>set ls. terminated l))"

lemma readable_file: "readable w n \<Longrightarrow> files w n = Some (Reader (content w n) EOF)"
  by (auto simp: readable_def content_def)

lemma sorted_chunk_lines:
  assumes "sorted_chunk w n"
  shows "sorted (chunk_lines w n)" and "concat (chunk_lines w n) = content w n"
    and "\<forall>l\<in>set (chunk_lines w n). terminated l"
proof -
  from assms obtain ls where ls: "content w n = concat ls" "sorted ls" "\<forall>l\<in>set ls. terminated l"
    by (auto simp: sorted_chunk_def)
  then have "chunk_lines w n = ls" by (simp add: chunk_lines_def complete_lines_concat_all)
  with ls show "sorted (chunk_lines w n)" "concat (chunk_lines w n) = content w n"
    "\<forall>l\<in>set (chunk_lines w n). terminated l" by simp_all
qed

lemma complete_lines_terminated: "l \<in> set (complete_lines s) \<Longrightarrow> terminated l"
proof (induction s arbitrary: l rule: complete_lines.induct)
  case (1 s)
  show ?case
  proof (cases "read_until s")
    case None
    with "1.prems" show ?thesis by (simp add: complete_lines.simps[of s])
  next
    case (Some p)
    obtain a rest where p: "p = (a, rest)" by (cases p)
    with Some "1.prems" have "l = a \<or> l \<in> set (complete_lines rest)"
      by (simp add: complete_lines.simps[of s])
    with "1.IH"[OF Some p[symmetric]] read_until_Some[of s a rest] Some p show ?thesis by auto
  qed
qed

lemma open_inputs_all:
  assumes "\<forall>n\<in>set names. files w n \<noteq> None"
  shows "\<exists>w'. open_inputs names fs w = (fs @ map (\<lambda>n. the (files w n)) names, None, w')"
  using assms
proof (induction names arbitrary: fs w)
  case Nil
  then show ?case by simp
next
  case (Cons n names)
  from Cons.prems obtain rd where rd: "files w n = Some rd" by auto
  define w1 where "w1 = w\<lparr>open_now := Suc (open_now w), open_max := max (open_max w) (Suc (open_now w))\<rparr>"
  have op: "os_Open n w = (Inr rd, w1)" by (simp add: os_Open_def rd w1_def)
  have f: "files w1 = files w" by (simp add: w1_def)
  with Cons.prems have "\<forall>n\<in>set names. files w1 n \<noteq> None" by simp
  from Cons.IH[OF this, of "fs @ [rd]"] op f rd show ?case by simp
qed

text \<open>
  A direct merge of readable files in a calm, fresh world succeeds: the inputs are
  gone, the output is a readable file under the next merge name, and when the
  inputs are sorted chunks the output holds all their lines in order.
\<close>

lemma mergeSimpleFiles_calm:
  assumes "calm w" "fresh w" "\<forall>n\<in>set names. readable w n"
  shows "\<exists>w' out. mergeSimpleFiles sched names w = (tmpname ''filesort_merge_'' (counter w), None, w')
          \<and> files w' = (\<lambda>x. if x \<in> set names then None else files w x)
                          (tmpname ''filesort_merge_'' (counter w) \<mapsto> Reader out EOF)
          \<and> tmpname ''filesort_merge_'' (counter w) \<notin> set names
          \<and> files w (tmpname ''filesort_merge_'' (counter w)) = None
          \<and> counter w' = Suc (counter w) \<and> calm w' \<and> fresh w'
          \<and> ((\<forall>n\<in>set names. sorted_chunk w n)
                \<longrightarrow> out = concat (sort (concat (map (chunk_lines w) names))))"
proof -
  define outname where "outname = tmpname ''filesort_merge_'' (counter w)"
  define w0 where "w0 = w\<lparr>merge_sizes := merge_sizes w @ [length names]\<rparr>"
  define w1 where "w1 = w0\<lparr>counter := Suc (counter w),
                           files := (files w)(outname \<mapsto> Reader [] EOF)\<rparr>"
  have none: "files w outname = None" using assms(2) by (simp add: fresh_def outname_def)
  have notin: "outname \<notin> set names"
    using assms(3) none by (auto simp: readable_def)
  have c0: "calm w0" using assms(1) by (simp add: calm_def w0_def)
  have w0f: "files w0 = files w" "counter w0 = counter w" by (simp_all add: w0_def)
  have tf: "TempFile ''filesort_merge_'' w0 = (outname, None, w1)"
    unfolding TempFile_def fault_calm[OF c0]
    using none by (simp add: Let_def w0f w1_def outname_def)
  have c1: "calm w1" using assms(1) by (simp add: calm_def w0_def w1_def)
  have ex1: "\<forall>n\<in>set names. files w1 n \<noteq> None"
    using assms(3) notin by (auto simp: readable_def w1_def)
  define rs where "rs = map (\<lambda>n. the (files w1 n)) names"
  from open_inputs_all[OF ex1, of "[]"] obtain w2
    where oi: "open_inputs names [] w1 = (rs, None, w2)" by (auto simp: rs_def)
  note o2 = open_inputs_fields[OF oi]
  have c2: "calm w2" using c1 o2 by (simp add: calm_def)
  have rs_eq: "rs = map (\<lambda>n. Reader (content w n) EOF) names"
    unfolding rs_def using assms(3) notin
    by (auto simp: w1_def dest!: readable_file)
  then have eofs: "\<forall>rd\<in>set rs. ending rd = EOF" by auto
  from mergeSimple_eof[OF eofs c2, of sched "[]"] obtain out
    where ms: "mergeSimple sched rs [] w2 = (None, out, w2)" by auto
  define w4 where "w4 = w2\<lparr>files := (files w2)(outname \<mapsto> Reader out EOF)\<rparr>"
  have fl: "Flush out outname w2 = (None, w4)"
    by (simp add: Flush_def fault_calm[OF c2] w4_def)
  define w' where "w' = deleteFiles names (os_Close (length rs) w4)"
  have res: "mergeSimpleFiles sched names w = (outname, None, w')"
    unfolding mergeSimpleFiles_def using tf oi ms fl by (simp add: w0_def w'_def)
  have f2: "files w2 = (files w)(outname \<mapsto> Reader [] EOF)"
    using o2 by (simp add: w1_def)
  have fw': "files w' = (\<lambda>x. if x \<in> set names then None else files w x)(outname \<mapsto> Reader out EOF)"
    using notin by (auto simp: w'_def w4_def f2 deleteFiles_files fun_eq_iff)
  have cw': "counter w' = Suc (counter w)"
    using o2 by (simp add: w'_def w4_def w1_def)
  have calm': "calm w'" using c2 by (simp add: calm_def w'_def w4_def)
  have fresh': "fresh w'"
    unfolding fresh_def
  proof (intro allI impI)
    fix k assume "counter w' \<le> k"
    with cw' have k: "counter w < k" "counter w \<le> k" by simp_all
    then have a: "tmpname ''filesort_chunk_'' k \<noteq> outname" "tmpname ''filesort_merge_'' k \<noteq> outname"
      unfolding outname_def using tmpname_prefixes tmpname_inj by (blast, fastforce)
    from assms(2) k(2) have "files w (tmpname ''filesort_chunk_'' k) = None"
      "files w (tmpname ''filesort_merge_'' k) = None" by (simp_all add: fresh_def)
    with a show "files w' (tmpname ''filesort_chunk_'' k) = None
                 \<and> files w' (tmpname ''filesort_merge_'' k) = None"
      by (simp add: fw')
  qed
  have srt: "out = concat (sort (concat (map (chunk_lines w) names)))"
    if "\<forall>n\<in>set names. sorted_chunk w n"
  proof -
    have "\<forall>rd\<in>set rs. ending rd = EOF \<and> sorted (complete_lines (pending rd))"
      using that sorted_chunk_lines(1)[of w] by (auto simp: rs_eq chunk_lines_def)
    from mergeSimple_sorted_calm[OF this c2, of sched "[]"] ms
    have "out = concat (sort (concat (map (\<lambda>rd. complete_lines (pending rd)) rs)))" by simp
    also have "map (\<lambda>rd. complete_lines (pending rd)) rs = map (chunk_lines w) names"
      by (simp add: rs_eq chunk_lines_def)
    finally show ?thesis .
  qed
  show ?thesis
    unfolding outname_def[symmetric]
    using res fw' notin none cw' calm' fresh' srt by blast
qed


text \<open>
  What a successful \<open>merge\<close> of \<open>names\<close> leaves: the inputs are gone, one readable
  file \<open>name\<close> stands for them (one of them, or a new one), every other file is as
  before, and when the inputs were sorted chunks that file holds all their lines in
  order.
\<close>

definition merged_into :: "world \<Rightarrow> string list \<Rightarrow> string \<Rightarrow> world \<Rightarrow> bool" where
  "merged_into w names name w' \<longleftrightarrow>
     (\<exists>out. files w' = (\<lambda>x. if x \<in> set names then None else files w x)(name \<mapsto> Reader out EOF)
        \<and> ((\<forall>n\<in>set names. sorted_chunk w n)
              \<longrightarrow> out = concat (sort (concat (map (chunk_lines w) names)))))
     \<and> (name \<in> set names \<or> files w name = None) \<and> name \<noteq> []
     \<and> calm w' \<and> fresh w' \<and> counter w \<le> counter w'"

lemma merge_group_calm:
  assumes "calm w" "fresh w" "grp \<noteq> []" "int (length grp) \<le> limit"
    and "\<forall>n\<in>set grp. readable w n \<and> n \<noteq> []"
  shows "\<exists>name w'. merge sched (Suc fuel) grp limit w = (Return (name, None), w')
           \<and> merged_into w grp name w'"
proof (cases "2 \<le> length grp")
  case True
  from assms(5) have r: "\<forall>n\<in>set grp. readable w n" by simp
  from mergeSimpleFiles_calm[OF assms(1,2) r, of sched] obtain w' out
    where m: "mergeSimpleFiles sched grp w = (tmpname ''filesort_merge_'' (counter w), None, w')"
      and f: "files w' = (\<lambda>x. if x \<in> set grp then None else files w x)
                          (tmpname ''filesort_merge_'' (counter w) \<mapsto> Reader out EOF)"
      and n: "files w (tmpname ''filesort_merge_'' (counter w)) = None"
      and c: "counter w' = Suc (counter w)" "calm w'" "fresh w'"
      and s: "(\<forall>n\<in>set grp. sorted_chunk w n)
                \<longrightarrow> out = concat (sort (concat (map (chunk_lines w) grp)))"
    by blast
  have "merge sched (Suc fuel) grp limit w = (Return (tmpname ''filesort_merge_'' (counter w), None), w')"
    using merge_direct[OF True assms(4), of sched fuel w] m by simp
  moreover have "merged_into w grp (tmpname ''filesort_merge_'' (counter w)) w'"
    unfolding merged_into_def using f n c s by (auto simp: tmpname_not_Nil)
  ultimately show ?thesis by blast
next
  case False
  with assms(3) obtain n where g: "grp = [n]" by (cases grp; cases "tl grp") auto
  with assms(5) have rd: "readable w n" and ne: "n \<noteq> []" by simp_all
  have f: "files w = (\<lambda>x. if x \<in> set grp then None else files w x)(n \<mapsto> Reader (content w n) EOF)"
    using readable_file[OF rd] by (auto simp: g fun_eq_iff)
  have "content w n = concat (sort (concat (map (chunk_lines w) grp)))"
    if "\<forall>n\<in>set grp. sorted_chunk w n"
  proof -
    from that have sc: "sorted_chunk w n" by (simp add: g)
    from sorted_chunk_lines(1,2)[OF sc] show ?thesis by (simp add: g sorted_sort_id)
  qed
  with f have "merged_into w grp n w"
    unfolding merged_into_def using assms(1,2) ne g by auto
  then show ?thesis by (auto simp: g)
qed

lemma merged_into_file:
  assumes "merged_into w names name w'"
  shows "readable w' name"
    and "x \<noteq> name \<Longrightarrow> files w' x = (if x \<in> set names then None else files w x)"
    and "\<forall>n\<in>set names. sorted_chunk w n \<Longrightarrow>
           sorted_chunk w' name \<and> chunk_lines w' name = sort (concat (map (chunk_lines w) names))"
proof -
  from assms obtain out
    where f: "files w' = (\<lambda>x. if x \<in> set names then None else files w x)(name \<mapsto> Reader out EOF)"
      and s: "(\<forall>n\<in>set names. sorted_chunk w n)
                \<longrightarrow> out = concat (sort (concat (map (chunk_lines w) names)))"
    unfolding merged_into_def by blast
  from f show "readable w' name" by (simp add: readable_def)
  from f show "x \<noteq> name \<Longrightarrow> files w' x = (if x \<in> set names then None else files w x)" by simp
  assume all: "\<forall>n\<in>set names. sorted_chunk w n"
  define ls where "ls = sort (concat (map (chunk_lines w) names))"
  from all s have out: "out = concat ls" by (simp add: ls_def)
  have "\<forall>l\<in>set (concat (map (chunk_lines w) names)). terminated l"
    using all sorted_chunk_lines(3) by auto
  then have t: "\<forall>l\<in>set ls. terminated l" by (simp add: ls_def)
  have c: "content w' name = concat ls" by (simp add: content_def f out)
  have "sorted ls" by (simp add: ls_def)
  with t c \<open>readable w' name\<close> have "sorted_chunk w' name" unfolding sorted_chunk_def by blast
  moreover from t c have "chunk_lines w' name = ls"
    by (simp add: chunk_lines_def complete_lines_concat_all)
  ultimately show "sorted_chunk w' name \<and> chunk_lines w' name = sort (concat (map (chunk_lines w) names))"
    by (simp add: ls_def)
qed


lemma same_file:
  assumes "files w' n = files w n"
  shows "readable w' n = readable w n" "content w' n = content w n"
    "chunk_lines w' n = chunk_lines w n" "sorted_chunk w' n = sorted_chunk w n"
  using assms by (simp_all add: readable_def content_def chunk_lines_def sorted_chunk_def)

text \<open>
  The loop over the groups, each within the limit, on distinct readable files: one
  name for each group, each the merge of its group, the files of all groups gone.
\<close>

lemma merge_groups_calm:
  assumes "calm w" "fresh w"
    and "\<forall>g\<in>set groups. g \<noteq> [] \<and> int (length g) \<le> limit"
    and "distinct (concat groups)"
    and "\<forall>n\<in>set (concat groups). readable w n \<and> n \<noteq> []"
  shows "\<exists>rs w'. merge_groups sched (Suc fuel) groups limit acc w = (Return (acc @ rs, None), w')
           \<and> length rs = length groups \<and> distinct rs \<and> [] \<notin> set rs
           \<and> calm w' \<and> fresh w' \<and> counter w \<le> counter w'
           \<and> (\<forall>r\<in>set rs. r \<in> set (concat groups) \<or> files w r = None)
           \<and> (\<forall>x. x \<notin> set rs \<longrightarrow> files w' x = (if x \<in> set (concat groups) then None else files w x))
           \<and> (\<forall>i<length groups. readable w' (rs ! i)
                 \<and> ((\<forall>n\<in>set (groups ! i). sorted_chunk w n) \<longrightarrow>
                      sorted_chunk w' (rs ! i)
                      \<and> chunk_lines w' (rs ! i) = sort (concat (map (chunk_lines w) (groups ! i)))))"
  using assms
proof (induction groups arbitrary: acc w)
  case Nil
  then show ?case by simp
next
  case (Cons g groups)
  from Cons.prems(3) have g: "g \<noteq> []" "int (length g) \<le> limit" by simp_all
  from Cons.prems(5) have gr: "\<forall>n\<in>set g. readable w n \<and> n \<noteq> []" by simp
  from merge_group_calm[OF Cons.prems(1,2) g gr, of sched fuel] obtain name w1
    where m: "merge sched (Suc fuel) g limit w = (Return (name, None), w1)"
      and mi: "merged_into w g name w1" by blast
  note mf = merged_into_file[OF mi]
  from mi have name: "name \<in> set g \<or> files w name = None" "name \<noteq> []"
    and w1: "calm w1" "fresh w1" "counter w \<le> counter w1"
    unfolding merged_into_def by simp_all
  have disj: "set g \<inter> set (concat groups) = {}" and dg: "distinct (concat groups)"
    using Cons.prems(4) by auto
  have ex: "\<forall>n\<in>set (concat groups). files w n \<noteq> None"
    using Cons.prems(5) by (auto simp: readable_def)
  have name_notin: "name \<notin> set (concat groups)"
  proof
    assume a: "name \<in> set (concat groups)"
    with ex have "files w name \<noteq> None" by blast
    with name(1) have "name \<in> set g" by simp
    with a disj show False by blast
  qed
  have same: "files w1 n = files w n" if "n \<in> set (concat groups)" for n
  proof -
    from that name_notin have "n \<noteq> name" by blast
    moreover from that disj have "n \<notin> set g" by blast
    ultimately show ?thesis using mf(2)[of n] by simp
  qed
  have r1: "\<forall>n\<in>set (concat groups). readable w1 n \<and> n \<noteq> []"
  proof
    fix n assume n: "n \<in> set (concat groups)"
    from same[OF n] have "readable w1 n = readable w n" by (rule same_file(1))
    moreover from n Cons.prems(5) have "readable w n \<and> n \<noteq> []" by simp
    ultimately show "readable w1 n \<and> n \<noteq> []" by simp
  qed
  from Cons.prems(3) have gs: "\<forall>g\<in>set groups. g \<noteq> [] \<and> int (length g) \<le> limit" by simp
  from Cons.IH[OF w1(1,2) gs dg r1, of "acc @ [name]"] obtain rs w'
    where mg: "merge_groups sched (Suc fuel) groups limit (acc @ [name]) w1
                 = (Return ((acc @ [name]) @ rs, None), w')"
      and len: "length rs = length groups" and dist: "distinct rs" and nn: "[] \<notin> set rs"
      and w': "calm w'" "fresh w'" "counter w1 \<le> counter w'"
      and orig: "\<forall>r\<in>set rs. r \<in> set (concat groups) \<or> files w1 r = None"
      and other: "\<forall>x. x \<notin> set rs \<longrightarrow> files w' x = (if x \<in> set (concat groups) then None else files w1 x)"
      and each: "\<forall>i<length groups. readable w' (rs ! i)
                 \<and> ((\<forall>n\<in>set (groups ! i). sorted_chunk w1 n) \<longrightarrow>
                      sorted_chunk w' (rs ! i)
                      \<and> chunk_lines w' (rs ! i) = sort (concat (map (chunk_lines w1) (groups ! i))))"
    by blast
  have f1name: "files w1 name \<noteq> None" using mf(1) by (auto simp: readable_def)
  have name_notin_rs: "name \<notin> set rs" using orig name_notin f1name by auto
  have res: "merge_groups sched (Suc fuel) (g # groups) limit acc w
               = (Return (acc @ (name # rs), None), w')"
    using m mg name(2) by (simp add: Let_def)
  have a: "length (name # rs) = length (g # groups)" using len by simp
  have b: "distinct (name # rs)" using dist name_notin_rs by simp
  have c: "[] \<notin> set (name # rs)" using nn name(2) by auto
  have d: "counter w \<le> counter w'" using w1(3) w'(3) by simp
  have e: "\<forall>r\<in>set (name # rs). r \<in> set (concat (g # groups)) \<or> files w r = None"
  proof
    fix r assume "r \<in> set (name # rs)"
    then consider "r = name" | "r \<in> set rs" "r \<noteq> name" by auto
    then show "r \<in> set (concat (g # groups)) \<or> files w r = None"
    proof cases
      case 1
      with name(1) show ?thesis by auto
    next
      case 2
      with orig have "r \<in> set (concat groups) \<or> files w1 r = None" by simp
      with mf(2)[OF 2(2)] show ?thesis by (auto split: if_splits)
    qed
  qed
  have f: "\<forall>x. x \<notin> set (name # rs) \<longrightarrow>
             files w' x = (if x \<in> set (concat (g # groups)) then None else files w x)"
  proof (intro allI impI)
    fix x assume "x \<notin> set (name # rs)"
    then have x: "x \<noteq> name" "x \<notin> set rs" by auto
    from other x(2) have "files w' x = (if x \<in> set (concat groups) then None else files w1 x)"
      by simp
    with mf(2)[OF x(1)] show "files w' x = (if x \<in> set (concat (g # groups)) then None else files w x)"
      by auto
  qed
  have w'name: "files w' name = files w1 name"
    using other name_notin_rs name_notin by simp
  have h: "\<forall>i<length (g # groups). readable w' ((name # rs) ! i)
                 \<and> ((\<forall>n\<in>set ((g # groups) ! i). sorted_chunk w n) \<longrightarrow>
                      sorted_chunk w' ((name # rs) ! i)
                      \<and> chunk_lines w' ((name # rs) ! i)
                          = sort (concat (map (chunk_lines w) ((g # groups) ! i))))"
  proof (intro allI impI)
    fix i assume i: "i < length (g # groups)"
    show "readable w' ((name # rs) ! i)
                 \<and> ((\<forall>n\<in>set ((g # groups) ! i). sorted_chunk w n) \<longrightarrow>
                      sorted_chunk w' ((name # rs) ! i)
                      \<and> chunk_lines w' ((name # rs) ! i)
                          = sort (concat (map (chunk_lines w) ((g # groups) ! i))))"
    proof (cases i)
      case 0
      from mf(1) have "readable w' name" by (simp add: same_file(1)[OF w'name])
      moreover have "sorted_chunk w' name
                      \<and> chunk_lines w' name = sort (concat (map (chunk_lines w) g))"
        if "\<forall>n\<in>set g. sorted_chunk w n"
        using mf(3)[OF that] by (simp add: same_file(3,4)[OF w'name])
      ultimately show ?thesis using 0 by simp
    next
      case (Suc j)
      with i have j: "j < length groups" by simp
      then have "groups ! j \<in> set groups" by simp
      then have sub: "set (groups ! j) \<subseteq> set (concat groups)" by auto
      have sj: "sorted_chunk w1 n = sorted_chunk w n" "chunk_lines w1 n = chunk_lines w n"
        if "n \<in> set (groups ! j)" for n
      proof -
        from that sub have "n \<in> set (concat groups)" by blast
        from same[OF this] show "sorted_chunk w1 n = sorted_chunk w n"
          "chunk_lines w1 n = chunk_lines w n" by (rule same_file)+
      qed
      have eq1: "(\<forall>n\<in>set (groups ! j). sorted_chunk w1 n) = (\<forall>n\<in>set (groups ! j). sorted_chunk w n)"
        using sj(1) by blast
      have eq2: "map (chunk_lines w1) (groups ! j) = map (chunk_lines w) (groups ! j)"
        using sj(2) by simp
      from each j show ?thesis by (simp add: Suc eq1 eq2)
    qed
  qed
  show ?case
    using res a b c w'(1,2) d e f h by blast
qed

lemma sort_cong_mset: "mset xs = mset ys \<Longrightarrow> sort xs = sort ys"
  by (rule properties_for_sort) simp_all

lemma mset_concat_map_sort:
  "mset (concat (map (\<lambda>g. sort (f g)) gs)) = mset (concat (map f gs))"
  by (induction gs) simp_all

text \<open>
  The merge tree on distinct readable files in a calm, fresh world, under a limit of
  at least 2 and a budget of the number of names: it returns one name and no error,
  and the files are merged into the file of that name.
\<close>

lemma merge_calm:
  assumes "2 \<le> limit"
    and "names \<noteq> []" "length names \<le> fuel" "calm w" "fresh w" "distinct names"
    and "\<forall>n\<in>set names. readable w n \<and> n \<noteq> []"
  shows "\<exists>name w'. merge sched fuel names limit w = (Return (name, None), w')
           \<and> merged_into w names name w'"
  using assms(2-)
proof (induction fuel arbitrary: names w)
  case 0
  then show ?case by simp
next
  case (Suc fuel)
  from Suc.prems(1) have "length names \<noteq> 0" by simp
  then have "int (length names) \<le> limit \<or> limit < int (length names)" by linarith
  then show ?case
  proof
    assume le: "int (length names) \<le> limit"
    from merge_group_calm[OF Suc.prems(3,4,1) le Suc.prems(6)] show ?thesis .
  next
    assume gt: "limit < int (length names)"
    define groups where "groups = strSliceSplit_loop names (nat limit) 0 []"
    note gf = name_groups_facts[OF assms(1) gt, folded groups_def]
    from gt assms(1) have n3: "3 \<le> length names" by simp
    with Suc.prems(2) obtain fuel' where fuel: "fuel = Suc fuel'" by (cases fuel) auto
    have dc: "distinct (concat groups)" and rc: "\<forall>n\<in>set (concat groups). readable w n \<and> n \<noteq> []"
      using Suc.prems(5,6) by (simp_all only: gf(5))
    from merge_groups_calm[OF Suc.prems(3,4) gf(1) dc rc, of sched fuel' "[]"] obtain rs w1
      where mg: "merge_groups sched fuel groups limit [] w = (Return (rs, None), w1)"
        and len: "length rs = length groups" and dist: "distinct rs" and nn: "[] \<notin> set rs"
        and w1: "calm w1" "fresh w1" "counter w \<le> counter w1"
        and orig: "\<forall>r\<in>set rs. r \<in> set names \<or> files w r = None"
        and other: "\<forall>x. x \<notin> set rs \<longrightarrow> files w1 x = (if x \<in> set names then None else files w x)"
        and each: "\<forall>i<length groups. readable w1 (rs ! i)
                 \<and> ((\<forall>n\<in>set (groups ! i). sorted_chunk w n) \<longrightarrow>
                      sorted_chunk w1 (rs ! i)
                      \<and> chunk_lines w1 (rs ! i) = sort (concat (map (chunk_lines w) (groups ! i))))"
      unfolding fuel gf(5) by auto
    have rec: "merge sched (Suc fuel) names limit w = merge sched fuel rs limit w1"
      using gt assms(1) n3 mg
      by (subst merge_recursive) (auto simp: groups_def[symmetric])
    have rs_ne: "rs \<noteq> []" using len gf(2) by auto
    have rs_len: "length rs \<le> fuel" using len gf(4) n3 Suc.prems(2) by linarith
    have rs_rd: "\<forall>n\<in>set rs. readable w1 n \<and> n \<noteq> []"
    proof
      fix n assume n: "n \<in> set rs"
      then obtain i where "i < length rs" "rs ! i = n" by (auto simp: in_set_conv_nth)
      with each len have "readable w1 n" by auto
      with n nn show "readable w1 n \<and> n \<noteq> []" by auto
    qed
    from Suc.IH[OF rs_ne rs_len w1(1,2) dist rs_rd] obtain name w'
      where m: "merge sched fuel rs limit w1 = (Return (name, None), w')"
        and mi: "merged_into w1 rs name w'" by blast
    from mi obtain out
      where f: "files w' = (\<lambda>x. if x \<in> set rs then None else files w1 x)(name \<mapsto> Reader out EOF)"
        and s: "(\<forall>n\<in>set rs. sorted_chunk w1 n)
                \<longrightarrow> out = concat (sort (concat (map (chunk_lines w1) rs)))"
        and nm: "name \<in> set rs \<or> files w1 name = None" "name \<noteq> []"
        and w': "calm w'" "fresh w'" "counter w1 \<le> counter w'"
      unfolding merged_into_def by blast
    have f': "files w' = (\<lambda>x. if x \<in> set names then None else files w x)(name \<mapsto> Reader out EOF)"
    proof
      fix x
      show "files w' x = ((\<lambda>x. if x \<in> set names then None else files w x)(name \<mapsto> Reader out EOF)) x"
      proof (cases "x = name")
        case True
        then show ?thesis by (simp add: f)
      next
        case False
        show ?thesis
        proof (cases "x \<in> set rs")
          case True
          with orig have "x \<in> set names \<or> files w x = None" by simp
          with True False show ?thesis by (auto simp: f)
        next
          case nr: False
          with other have "files w1 x = (if x \<in> set names then None else files w x)" by simp
          with nr False show ?thesis by (simp add: f)
        qed
      qed
    qed
    have s': "out = concat (sort (concat (map (chunk_lines w) names)))"
      if all: "\<forall>n\<in>set names. sorted_chunk w n"
    proof -
      have gi: "sorted_chunk w1 (rs ! i)
                 \<and> chunk_lines w1 (rs ! i) = sort (concat (map (chunk_lines w) (groups ! i)))"
        if i: "i < length groups" for i
      proof -
        from i have "groups ! i \<in> set groups" by simp
        then have "set (groups ! i) \<subseteq> set (concat groups)" by auto
        with all gf(5) have "\<forall>n\<in>set (groups ! i). sorted_chunk w n" by auto
        with each i show ?thesis by simp
      qed
      have "\<forall>n\<in>set rs. sorted_chunk w1 n"
      proof
        fix n assume "n \<in> set rs"
        then obtain i where "i < length rs" "rs ! i = n" by (auto simp: in_set_conv_nth)
        with gi[of i] len show "sorted_chunk w1 n" by auto
      qed
      with s have o: "out = concat (sort (concat (map (chunk_lines w1) rs)))" by simp
      have "map (chunk_lines w1) rs
              = map (\<lambda>g. sort (concat (map (chunk_lines w) g))) groups"
        using len gi by (intro nth_equalityI) simp_all
      then have "mset (concat (map (chunk_lines w1) rs))
                   = mset (concat (map (\<lambda>g. concat (map (chunk_lines w) g)) groups))"
        by (simp only: mset_concat_map_sort)
      also have "concat (map (\<lambda>g. concat (map (chunk_lines w) g)) groups)
                   = concat (map (chunk_lines w) (concat groups))"
        by (induction groups) simp_all
      finally have "mset (concat (map (chunk_lines w1) rs)) = mset (concat (map (chunk_lines w) names))"
        by (simp only: gf(5))
      from sort_cong_mset[OF this] o show ?thesis by simp
    qed
    have nm': "name \<in> set names \<or> files w name = None"
    proof (cases "name \<in> set rs")
      case True
      with orig show ?thesis by simp
    next
      case False
      with nm(1) other show ?thesis by (auto split: if_splits)
    qed
    have "merged_into w names name w'"
      unfolding merged_into_def using f' s' nm' nm(2) w'(1,2) w1(3) w'(3) by auto
    with rec m show ?thesis by simp
  qed
qed


subsection \<open>The whole sort\<close>

lemma records_eq_Nil: "records s = [] \<Longrightarrow> s = []"
  by (subst (asm) records.simps) (auto split: option.splits if_splits)

lemma batches_le_length: "0 < k \<Longrightarrow> length (batches k xs) \<le> length xs"
proof (induction "length xs" arbitrary: xs rule: less_induct)
  case less
  show ?case
  proof (cases "xs = []")
    case True
    then show ?thesis by simp
  next
    case False
    with less.prems have "length (drop k xs) < length xs" by simp
    moreover from False have "0 < length xs" by simp
    moreover note less.hyps[OF \<open>length (drop k xs) < length xs\<close> less.prems]
    ultimately have "Suc (length (batches k (drop k xs))) \<le> length xs"
      using less.prems by (simp only: length_drop)
    with False less.prems show ?thesis by (simp add: batches_Cons)
  qed
qed

lemma batches_not_Nil: "0 < k \<Longrightarrow> xs \<noteq> [] \<Longrightarrow> batches k xs \<noteq> []"
  by (simp add: batches_Cons)

lemma batches_subset: "b \<in> set (batches k xs) \<Longrightarrow> set b \<subseteq> set xs"
proof (induction "length xs" arbitrary: xs rule: less_induct)
  case less
  show ?case
  proof (cases "k = 0 \<or> xs = []")
    case True
    with less.prems show ?thesis by (subst (asm) batches.simps) simp
  next
    case False
    then have "length (drop k xs) < length xs" by simp
    from less.hyps[OF this] less.prems False show ?thesis
      by (auto simp: batches_Cons dest: in_set_takeD in_set_dropD)
  qed
qed

text \<open>The chunks that \<open>split\<close> writes are sorted chunks, each holding its batch in order.\<close>

lemma put_chunks_sorted_chunk:
  assumes "i < length bs" and "\<forall>l\<in>set (bs ! i). terminated l"
  shows "sorted_chunk (put_chunks bs w) (names_from (counter w) (length bs) ! i)"
    and "chunk_lines (put_chunks bs w) (names_from (counter w) (length bs) ! i) = sort (bs ! i)"
proof -
  define n where "n = names_from (counter w) (length bs) ! i"
  have n: "n = tmpname ''filesort_chunk_'' (counter w + i)"
    unfolding n_def using assms(1) by (rule names_from_nth)
  have f: "files (put_chunks bs w) n = Some (Reader (concat (sort (bs ! i))) EOF)"
    unfolding n using assms(1) by (rule put_chunks_file)
  then have r: "readable (put_chunks bs w) n" and c: "content (put_chunks bs w) n = concat (sort (bs ! i))"
    by (simp_all add: readable_def content_def)
  from assms(2) have t: "\<forall>l\<in>set (sort (bs ! i)). terminated l" by simp
  have "sorted (sort (bs ! i))" by simp
  with r c t show "sorted_chunk (put_chunks bs w) n" unfolding sorted_chunk_def by blast
  from c t show "chunk_lines (put_chunks bs w) n = sort (bs ! i)"
    by (simp add: chunk_lines_def complete_lines_concat_all)
qed

text \<open>
  \<open>sortLines\<close> on a stream that ends normally, in a calm and fresh world, with a
  positive chunk limit: it returns the name of a new file that holds the records
  of the input in order; every other file is as before (no chunk is left).
\<close>

lemma sortLines_calm:
  assumes "calm w" "fresh w" "1 \<le> limit" "length (records s) < fuel"
  shows "\<exists>name w'. sortLines sched fuel (Reader s EOF) limit w = (Return (name, None), w')
           \<and> files w' = (files w)(name \<mapsto> Reader (concat (sort (records s))) EOF)
           \<and> files w name = None \<and> name \<noteq> [] \<and> calm w' \<and> fresh w'"
proof (cases "records s = []")
  case True
  then have s: "s = []" by (rule records_eq_Nil)
  define n where "n = tmpname ''filesort_chunk_'' (counter w)"
  from assms(4) obtain fuel' where fuel: "fuel = Suc fuel'" by (cases fuel) auto
  have sp: "split (Reader s EOF) limit w = ([n], None, put_chunk [] w)"
    unfolding s n_def using assms(1,2) by (rule split_empty)
  then have "sortLines sched fuel (Reader s EOF) limit w = (Return (n, None), put_chunk [] w)"
    by (simp add: sortLines_def fuel)
  moreover have "files (put_chunk [] w) = (files w)(n \<mapsto> Reader (concat (sort (records s))) EOF)"
    by (simp add: put_chunk_def n_def True)
  moreover have "files w n = None" using assms(2) by (simp add: fresh_def n_def)
  moreover have "n \<noteq> []" by (simp add: n_def tmpname_not_Nil)
  ultimately show ?thesis using put_chunk_calm[OF assms(1)] put_chunk_fresh[OF assms(2)] by blast
next
  case False
  define k where "k = nat limit"
  define bs where "bs = batches k (records s)"
  define names where "names = names_from (counter w) (length bs)"
  define w1 where "w1 = put_chunks bs w"
  define lim where "lim = go_min 100 (go_max 10 limit)"
  from assms(3) have k: "0 < k" by (simp add: k_def)
  have sp: "split (Reader s EOF) limit w = (names, None, w1)"
    unfolding names_def w1_def bs_def k_def using assms(1-3) False by (rule split_records)
  have sl: "sortLines sched fuel (Reader s EOF) limit w = merge sched fuel names lim w1"
    using sp by (simp add: sortLines_def lim_def)
  have lim2: "2 \<le> lim" using go_limit_range[of limit] by (simp add: lim_def)
  have bs_ne: "bs \<noteq> []" unfolding bs_def using k False by (rule batches_not_Nil)
  then have names_ne: "names \<noteq> []" by (auto simp: names_def names_from_def)
  have "length bs \<le> length (records s)" unfolding bs_def using k by (rule batches_le_length)
  with assms(4) have len: "length names \<le> fuel" by (simp add: names_def)
  have c1: "calm w1" "fresh w1"
    using assms(1,2) by (simp_all add: w1_def put_chunks_calm put_chunks_fresh)
  have dist: "distinct names" unfolding names_def by (rule names_from_distinct)
  have trm: "\<forall>l\<in>set (bs ! i). terminated l" if "i < length bs" for i
  proof -
    from that have "bs ! i \<in> set bs" by simp
    then have "set (bs ! i) \<subseteq> set (records s)" unfolding bs_def by (rule batches_subset)
    then show ?thesis using records_terminated by blast
  qed
  have sc: "sorted_chunk w1 (names ! i)" "chunk_lines w1 (names ! i) = sort (bs ! i)"
    if "i < length bs" for i
    unfolding w1_def names_def using put_chunks_sorted_chunk[OF that trm[OF that]] by simp_all
  have all_sc: "\<forall>n\<in>set names. sorted_chunk w1 n"
  proof
    fix n assume "n \<in> set names"
    then obtain i where "i < length names" "names ! i = n" by (auto simp: in_set_conv_nth)
    with sc(1)[of i] show "sorted_chunk w1 n" by (simp add: names_def)
  qed
  have rd: "\<forall>n\<in>set names. readable w1 n \<and> n \<noteq> []"
  proof
    fix n assume n: "n \<in> set names"
    with all_sc have "readable w1 n" by (simp add: sorted_chunk_def)
    moreover from n have "n \<noteq> []" by (auto simp: names_def names_from_def tmpname_not_Nil)
    ultimately show "readable w1 n \<and> n \<noteq> []" by simp
  qed
  from merge_calm[OF lim2 names_ne len c1 dist rd, of sched] obtain name w'
    where m: "merge sched fuel names lim w1 = (Return (name, None), w')"
      and mi: "merged_into w1 names name w'" by blast
  from mi all_sc obtain out
    where f: "files w' = (\<lambda>x. if x \<in> set names then None else files w1 x)(name \<mapsto> Reader out EOF)"
      and out: "out = concat (sort (concat (map (chunk_lines w1) names)))"
      and nm: "name \<in> set names \<or> files w1 name = None" "name \<noteq> []"
      and w': "calm w'" "fresh w'"
    unfolding merged_into_def by blast
  have "map (chunk_lines w1) names = map sort bs"
    using sc(2) by (intro nth_equalityI) (simp_all add: names_def)
  then have "mset (concat (map (chunk_lines w1) names)) = mset (concat (map (\<lambda>b. b) bs))"
    by (simp only: mset_concat_map_sort)
  also have "concat (map (\<lambda>b. b) bs) = records s"
    unfolding bs_def using k by (simp add: batches_concat)
  finally have "sort (concat (map (chunk_lines w1) names)) = sort (records s)"
    by (rule sort_cong_mset)
  with out have out': "out = concat (sort (records s))" by simp
  have chunk_names: "files w x = None \<and> (\<exists>i<length bs. x = tmpname ''filesort_chunk_'' (counter w + i))"
    if "x \<in> set names" for x
  proof -
    from that obtain i where "i < length names" "names ! i = x" by (auto simp: in_set_conv_nth)
    then have i: "i < length bs" "x = tmpname ''filesort_chunk_'' (counter w + i)"
      by (simp_all add: names_def names_from_nth)
    moreover from assms(2) i(2) have "files w x = None" by (simp add: fresh_def)
    ultimately show ?thesis by blast
  qed
  have others: "files w1 x = files w x" if "x \<notin> set names" for x
  proof -
    have "\<forall>i<length bs. x \<noteq> tmpname ''filesort_chunk_'' (counter w + i)"
    proof (intro allI impI)
      fix i assume "i < length bs"
      then have "names ! i = tmpname ''filesort_chunk_'' (counter w + i)" "i < length names"
        by (simp_all add: names_def names_from_nth)
      then have "tmpname ''filesort_chunk_'' (counter w + i) \<in> set names"
        by (metis nth_mem)
      with that show "x \<noteq> tmpname ''filesort_chunk_'' (counter w + i)" by auto
    qed
    then show ?thesis unfolding w1_def by (rule put_chunks_other)
  qed
  have f': "files w' = (files w)(name \<mapsto> Reader (concat (sort (records s))) EOF)"
  proof
    fix x
    show "files w' x = ((files w)(name \<mapsto> Reader (concat (sort (records s))) EOF)) x"
      using chunk_names[of x] others[of x] by (cases "x \<in> set names") (simp_all add: f out')
  qed
  have "files w name = None"
  proof (cases "name \<in> set names")
    case True
    with chunk_names show ?thesis by blast
  next
    case False
    with nm(1) others show ?thesis by simp
  qed
  with sl m f' nm(2) w' show ?thesis by simp
qed


lemma sortLinesFile_calm:
  assumes "calm w" "fresh w" "1 \<le> limit" "length (records s) < fuel"
  shows "\<exists>w'. sortLinesFile sched fuel (Reader s EOF) limit outfile w = (Return None, w')
           \<and> files w' = (files w)(outfile \<mapsto> Reader (concat (sort (records s))) EOF)"
proof -
  from sortLines_calm[OF assms, of sched] obtain name w1
    where sl: "sortLines sched fuel (Reader s EOF) limit w = (Return (name, None), w1)"
      and f: "files w1 = (files w)(name \<mapsto> Reader (concat (sort (records s))) EOF)"
      and n: "files w name = None" and c: "calm w1" by blast
  define w2 where "w2 = w1\<lparr>files := ((files w1)(name := None))(outfile \<mapsto> Reader (concat (sort (records s))) EOF)\<rparr>"
  have "os_Rename name outfile w1 = (None, w2)"
    by (simp add: os_Rename_def f fault_calm[OF c] w2_def)
  with sl have "sortLinesFile sched fuel (Reader s EOF) limit outfile w = (Return None, w2)"
    by (simp add: sortLinesFile_def)
  moreover have "files w2 = (files w)(outfile \<mapsto> Reader (concat (sort (records s))) EOF)"
    using n by (auto simp: w2_def f fun_eq_iff)
  ultimately show ?thesis by blast
qed

lemma sortLinesWrite_calm:
  assumes "calm w" "fresh w" "1 \<le> limit" "length (records s) < fuel"
  shows "\<exists>w'. sortLinesWrite sched fuel (Reader s EOF) limit out w
                  = (Return (None, out @ concat (sort (records s))), w')
           \<and> files w' = files w"
proof -
  from sortLines_calm[OF assms, of sched] obtain name w1
    where sl: "sortLines sched fuel (Reader s EOF) limit w = (Return (name, None), w1)"
      and f: "files w1 = (files w)(name \<mapsto> Reader (concat (sort (records s))) EOF)"
      and n: "files w name = None" and c: "calm w1" by blast
  define w2 where "w2 = w1\<lparr>open_now := Suc (open_now w1),
                            open_max := max (open_max w1) (Suc (open_now w1))\<rparr>"
  have op: "os_Open name w1 = (Inr (Reader (concat (sort (records s))) EOF), w2)"
    by (simp add: os_Open_def f w2_def)
  have c2: "calm w2" using c by (simp add: calm_def w2_def)
  have wt: "WriteTo (Reader (concat (sort (records s))) EOF) out w2
              = (None, out @ concat (sort (records s)), w2)"
    by (simp add: WriteTo_def fault_calm[OF c2])
  have "sortLinesWrite sched fuel (Reader s EOF) limit out w
          = (Return (None, out @ concat (sort (records s))), deleteFile name (os_Close 1 w2))"
    using sl op wt by (simp add: sortLinesWrite_def)
  moreover have "files (deleteFile name (os_Close 1 w2)) = files w"
    using n by (auto simp: w2_def f fun_eq_iff)
  ultimately show ?thesis by blast
qed

text \<open>
  One iteration of the loop of \<open>mergeSimple\<close> on a non-empty set, visited in the
  order \<open>p\<close>: the source chosen holds a least top line; it alone is advanced; a read
  error ends the merge before anything is written; otherwise the line is written
  and the loop goes on, without the source when its stream has ended.
\<close>

lemma mergeSimple_loop_iteration:
  assumes "ss \<noteq> []"
  shows "\<exists>i<length (range_order sched ss).
           (\<forall>s\<in>set ss. top_line (range_order sched ss ! i) \<le> top_line s)
         \<and> mergeSimple_loop sched ss None w world =
             (case ReadString (src_r (range_order sched ss ! i)) of
                (l, None, rd') \<Rightarrow>
                  (case WriteString w (top_line (range_order sched ss ! i)) world of
                     (err', w', world') \<Rightarrow>
                       mergeSimple_loop sched ((range_order sched ss)[i := Source l rd']) err' w' world')
              | (l, Some e, rd') \<Rightarrow>
                  if e = EOF then
                    (case WriteString w (top_line (range_order sched ss ! i)) world of
                       (err', w', world') \<Rightarrow>
                         mergeSimple_loop sched
                           (take i (range_order sched ss) @ drop (Suc i) (range_order sched ss))
                           err' w' world')
                  else (Some e, w, world))"
proof -
  define p where "p = range_order sched ss"
  have ms: "mset p = mset ss" unfolding p_def by (rule range_order_mset)
  with assms have "p \<noteq> []" by auto
  then obtain s0 rest where p: "p = s0 # rest" by (cases p) auto
  define i where "i = popMin_scan rest 1 0 (top_line s0)"
  have i: "i < length p"
    using popMin_scan_bound[of 0 1 rest "top_line s0"] by (simp add: i_def p)
  have "\<forall>s\<in>set p. top_line (p ! popMin_scan rest 1 0 (top_line s0)) \<le> top_line s"
    by (rule popMin_scan_min[of p "[s0]"]) (simp_all add: p)
  moreover from ms have "set p = set ss" by (metis set_mset_mset)
  ultimately have least: "\<forall>s\<in>set ss. top_line (p ! i) \<le> top_line s" by (simp add: i_def)
  obtain l e rd' where rs: "ReadString (src_r (p ! i)) = (l, e, rd')"
    by (cases "ReadString (src_r (p ! i))") auto
  note pc = popMin_cases[OF p i_def rs]
  have step: "mergeSimple_loop sched ss None w world =
           (case popMin s0 rest of
              (min_line, Some e, ss') \<Rightarrow> (Some e, w, world)
            | (min_line, None, ss') \<Rightarrow>
                (case WriteString w min_line world of
                   (err', w', world') \<Rightarrow> mergeSimple_loop sched ss' err' w' world'))"
    by (rule mergeSimple_loop_step) (simp add: p_def[symmetric] p)
  have "mergeSimple_loop sched ss None w world =
             (case ReadString (src_r (p ! i)) of
                (l, None, rd') \<Rightarrow>
                  (case WriteString w (top_line (p ! i)) world of
                     (err', w', world') \<Rightarrow>
                       mergeSimple_loop sched (p[i := Source l rd']) err' w' world')
              | (l, Some e, rd') \<Rightarrow>
                  if e = EOF then
                    (case WriteString w (top_line (p ! i)) world of
                       (err', w', world') \<Rightarrow>
                         mergeSimple_loop sched (take i p @ drop (Suc i) p) err' w' world')
                  else (Some e, w, world))"
    unfolding step pc rs by (cases e) simp_all
  with i least show ?thesis unfolding p_def by blast
qed

lemma newSourceSet_loop_Cons:
  "newSourceSet_loop (rd # rs) ss =
     (case ReadString rd of
        (l, None, rd') \<Rightarrow> newSourceSet_loop rs (ss @ [Source l rd'])
      | (l, Some e, rd') \<Rightarrow> if e = EOF then newSourceSet_loop rs ss else (Some e, []))"
  by (simp add: pop_def split: prod.splits option.splits)

section \<open>The claims\<close>


text \<open>
  Five one-line files under a limit of 2: three levels of merging give one file
  with the five lines in order, and the inputs are gone. And a sort with a
  chunk-size limit of 1 (five chunks, merged under the limit 10) returns.
\<close>

definition world5 :: world where
  "world5 = world0\<lparr>files :=
     [''a'' \<mapsto> Reader ''5\<newline>'' EOF, ''b'' \<mapsto> Reader ''3\<newline>'' EOF, ''c'' \<mapsto> Reader ''4\<newline>'' EOF,
      ''d'' \<mapsto> Reader ''1\<newline>'' EOF, ''e'' \<mapsto> Reader ''2\<newline>'' EOF]\<rparr>"


text \<open>
  C3. In every call \<open>merge(names, limit)\<close>, for every number of names, every call of
  \<open>mergeSimpleFiles\<close> receives at most \<open>limit\<close> names and never more than \<open>limit\<close> input
  files are open at once, at every level of the recursion: if that held for the
  world before the call it holds after it, and also for the world reached when the
  recursion budget runs out or the call panics. This holds for every \<open>limit\<close>, in
  particular for \<open>limit \<ge> 1\<close>.
\<close>

theorem merge_open_files_bounded:
  assumes "within_limit limit w"
  shows "open_now (snd (merge sched fuel names limit w)) = 0
       \<and> int (open_max (snd (merge sched fuel names limit w))) \<le> limit
       \<and> (\<forall>k\<in>set (merge_sizes (snd (merge sched fuel names limit w))). int k \<le> limit)"
  using merge_within_limit[OF assms, of sched fuel names] by (simp add: within_limit_def)

text \<open>
  Five sorted files merged under a limit of 2: four direct merges of two files each,
  and never more than two input files open.
\<close>

theorem merge_open_files_bounded_witness:
  "within_limit 2 world5
   \<and> open_now (snd (merge id 5 [''a'', ''b'', ''c'', ''d'', ''e''] 2 world5)) = 0
   \<and> int (open_max (snd (merge id 5 [''a'', ''b'', ''c'', ''d'', ''e''] 2 world5))) \<le> 2
   \<and> merge_sizes (snd (merge id 5 [''a'', ''b'', ''c'', ''d'', ''e''] 2 world5)) = [2, 2, 2, 2]
   \<and> open_max (snd (merge id 5 [''a'', ''b'', ''c'', ''d'', ''e''] 2 world5)) = 2
   \<and> fst (merge id 5 [''a'', ''b'', ''c'', ''d'', ''e''] 2 world5) = Return (''/tmp/filesort_merge_3'', None)"
proof -
  have h: "within_limit 2 world5" by code_simp
  have e: "merge_sizes (snd (merge id 5 [''a'', ''b'', ''c'', ''d'', ''e''] 2 world5)) = [2, 2, 2, 2]
   \<and> open_max (snd (merge id 5 [''a'', ''b'', ''c'', ''d'', ''e''] 2 world5)) = 2
   \<and> fst (merge id 5 [''a'', ''b'', ''c'', ''d'', ''e''] 2 world5) = Return (''/tmp/filesort_merge_3'', None)"
    by code_simp
  from merge_open_files_bounded[OF h, of id 5 "[''a'', ''b'', ''c'', ''d'', ''e'']"] h e
  show ?thesis by blast
qed


text \<open>
  Two inputs and a flush that fails (the third scheduled call): the error comes
  back, and neither the inputs nor the output exist afterwards. The same inputs
  without failure: the inputs are gone and the output holds the merged lines.
\<close>

definition world2 :: world where
  "world2 = world0\<lparr>files := [''a'' \<mapsto> Reader ''x\<newline>'' EOF, ''b'' \<mapsto> Reader '''' EOF]\<rparr>"


end
